theory Spec2Isabelle
  imports Complex_Main "HOL-Library.Word"
begin

section \<open>The Worker: one thread, one FIFO queue of closures\<close>

text \<open>
  \<^verbatim>\<open>class Worker\<close> of \<^verbatim>\<open>julia-amp.cpp\<close> owns a thread \<^verbatim>\<open>t\<close>, a mutex, a condition variable
  and a \<^verbatim>\<open>std::deque<std::function<void()>>\<close>. Every access to \<^verbatim>\<open>running\<close> and to \<^verbatim>\<open>tasks\<close>
  happens with the mutex held, so each critical section is one atomic step of the model, and
  \<^verbatim>\<open>cond.wait\<close> inside \<^verbatim>\<open>while (tasks.empty() && running)\<close> is a step that is not enabled
  while that condition holds.

  A callable is a function of the state it can touch (the embedded runtime, called the
  world here) that gives back its outcome and the new world: it either returns a value or
  throws.
\<close>

datatype 'v outcome = Value 'v | Thrown string

type_synonym ('w, 'v) callable = "'w \<Rightarrow> 'v outcome \<times> 'w"

text \<open>
  \<^verbatim>\<open>std::packaged_task<T()>\<close>: the stored callable and the shared state that its future
  reads. \<^verbatim>\<open>operator()\<close> stores the returned value, or the exception the callable threw, in
  the shared state; it lets no exception of the callable escape.
\<close>

record ('w, 'v) packaged_task =
  fn :: "('w, 'v) callable"
  shared_state :: "'v outcome option"

text \<open>Where the thread \<^verbatim>\<open>t\<close> stands in \<^verbatim>\<open>threadFunc\<close>.\<close>

datatype thread_pc =
    AtLoop          \<comment> \<open>at the head of \<^verbatim>\<open>while (true)\<close>, about to take the lock\<close>
  | Holding nat     \<comment> \<open>lock released, the closure moved out of the queue, before \<^verbatim>\<open>task()\<close>\<close>
  | Exited          \<comment> \<open>after \<^verbatim>\<open>break\<close>: \<^verbatim>\<open>threadFunc\<close> has returned\<close>

text \<open>
  The closure pushed by \<^verbatim>\<open>spawn\<close> is \<^verbatim>\<open>[&task] { task(); }\<close>: it holds a reference to the
  packaged task. The packaged tasks live in \<open>heap\<close>, and a closure is the index of the
  one it refers to. \<open>submitted\<close> and \<open>executed\<close> are observation logs (not fields of the
  class): the order in which closures were pushed, and the order in which \<^verbatim>\<open>task()\<close> ran.
\<close>

record ('w, 'v) Worker =
  running :: bool
  tasks :: "nat list"
  thr :: thread_pc
  heap :: "('w, 'v) packaged_task list"
  world :: 'w
  submitted :: "nat list"
  executed :: "nat list"

text \<open>
  \<^verbatim>\<open>Worker() : t{&Worker::threadFunc, this} {}\<close> with \<^verbatim>\<open>running = true\<close>. The class declares
  \<^verbatim>\<open>t\<close> before \<^verbatim>\<open>mtx\<close>, \<^verbatim>\<open>cond\<close> and \<^verbatim>\<open>tasks\<close>, so the thread is started before these are
  constructed; the model takes its first step to come after the construction of all members.
\<close>

definition Worker_ctor :: "'w \<Rightarrow> ('w, 'v) Worker" where
  "Worker_ctor w =
     \<lparr>running = True, tasks = [], thr = AtLoop, heap = [], world = w,
      submitted = [], executed = []\<rparr>"

text \<open>
  \<^verbatim>\<open>spawn\<close>: build the packaged task, push the closure at the tail under the lock, notify,
  return the packaged task (here: its index). The closure refers to the local variable that
  is returned; the model takes the returned object to be that variable (the compiler elides
  the copy), so that the reference stays valid while the caller holds the result.
\<close>

definition spawn :: "('w, 'v) callable \<Rightarrow> ('w, 'v) Worker \<Rightarrow> nat \<times> ('w, 'v) Worker" where
  "spawn f s =
     (let k = length (heap s) in
      (k, s\<lparr>heap := heap s @ [\<lparr>fn = f, shared_state = None\<rparr>],
            tasks := tasks s @ [k],
            submitted := submitted s @ [k]\<rparr>))"

text \<open>
  The critical section of \<^verbatim>\<open>threadFunc\<close>: wait while the queue is empty and \<^verbatim>\<open>running\<close>;
  leave the loop when \<^verbatim>\<open>running\<close> is false; otherwise move the front closure out and pop it.
\<close>

definition dequeue :: "('w, 'v) Worker \<Rightarrow> ('w, 'v) Worker option" where
  "dequeue s =
     (if thr s \<noteq> AtLoop then None
      else if tasks s = [] \<and> running s then None
      else if \<not> running s then Some (s\<lparr>thr := Exited\<rparr>)
      else Some (s\<lparr>thr := Holding (hd (tasks s)), tasks := tl (tasks s)\<rparr>))"

text \<open>\<^verbatim>\<open>task();\<close> outside the lock: the packaged task runs its callable and fulfils its shared state.\<close>

definition execute :: "('w, 'v) Worker \<Rightarrow> ('w, 'v) Worker option" where
  "execute s =
     (case thr s of
        Holding k \<Rightarrow>
          (if k < length (heap s) then
             (let pt = heap s ! k; rw = fn pt (world s) in
              Some (s\<lparr>heap := (heap s)[k := pt\<lparr>shared_state := Some (fst rw)\<rparr>],
                      world := snd rw,
                      thr := AtLoop,
                      executed := executed s @ [k]\<rparr>))
           else None)
      | _ \<Rightarrow> None)"

definition threadFunc_step :: "('w, 'v) Worker \<Rightarrow> ('w, 'v) Worker option" where
  "threadFunc_step s = (case thr s of AtLoop \<Rightarrow> dequeue s | Holding k \<Rightarrow> execute s | Exited \<Rightarrow> None)"

text \<open>\<^verbatim>\<open>get_future().get()\<close> on the packaged task \<open>k\<close>: ready once the shared state is fulfilled.\<close>

definition future_ready :: "nat \<Rightarrow> ('w, 'v) Worker \<Rightarrow> 'v outcome option" where
  "future_ready k s = (if k < length (heap s) then shared_state (heap s ! k) else None)"

text \<open>
  The caller blocked in \<^verbatim>\<open>get()\<close>: the worker thread goes on until the shared state is
  fulfilled. \<open>None\<close> is the caller that never returns (the thread has exited, or waits on an
  empty queue).
\<close>

partial_function (option) await :: "nat \<Rightarrow> ('w, 'v) Worker \<Rightarrow> ('v outcome \<times> ('w, 'v) Worker) option" where
  "await k s =
     (case future_ready k s of
        Some r \<Rightarrow> Some (r, s)
      | None \<Rightarrow> Option.bind (threadFunc_step s) (await k))"

text \<open>\<^verbatim>\<open>run(f)\<close> is \<^verbatim>\<open>spawn(f).get_future().get()\<close>.\<close>

definition Worker_run :: "('w, 'v) callable \<Rightarrow> ('w, 'v) Worker \<Rightarrow> ('v outcome \<times> ('w, 'v) Worker) option" where
  "Worker_run f s = (case spawn f s of (k, s1) \<Rightarrow> await k s1)"

text \<open>
  \<^verbatim>\<open>~Worker\<close>: set \<^verbatim>\<open>running = false\<close> under the lock, notify, then \<^verbatim>\<open>t.join()\<close>: the
  destructor returns when \<^verbatim>\<open>threadFunc\<close> has returned.
\<close>

definition request_stop :: "('w, 'v) Worker \<Rightarrow> ('w, 'v) Worker" where
  "request_stop s = s\<lparr>running := False\<rparr>"

partial_function (option) join :: "('w, 'v) Worker \<Rightarrow> ('w, 'v) Worker option" where
  "join s = (if thr s = Exited then Some s else Option.bind (threadFunc_step s) join)"

definition Worker_dtor :: "('w, 'v) Worker \<Rightarrow> ('w, 'v) Worker option" where
  "Worker_dtor s = join (request_stop s)"

text \<open>
  Interleavings: any thread may push (one \<open>Spawn\<close> per call of \<^verbatim>\<open>spawn\<close>, in the order in
  which the callers got the lock), the worker thread takes its steps in between, and the
  destructor's critical section is \<open>Stop\<close>.
\<close>

datatype ('w, 'v) event = Spawn "('w, 'v) callable" | Step | Stop

fun fire :: "('w, 'v) event \<Rightarrow> ('w, 'v) Worker \<Rightarrow> ('w, 'v) Worker option" where
  "fire (Spawn f) s = Some (snd (spawn f s))"
| "fire Step s = threadFunc_step s"
| "fire Stop s = Some (request_stop s)"

fun fire_all :: "('w, 'v) event list \<Rightarrow> ('w, 'v) Worker \<Rightarrow> ('w, 'v) Worker option" where
  "fire_all [] s = Some s"
| "fire_all (e # es) s = Option.bind (fire e s) (fire_all es)"

text \<open>The closure the thread holds between the two halves of an iteration.\<close>

definition held :: "('w, 'v) Worker \<Rightarrow> nat list" where
  "held s = (case thr s of Holding k \<Rightarrow> [k] | _ \<Rightarrow> [])"

text \<open>A callable with no effect on the world that returns \<open>r\<close>.\<close>

definition pure_work :: "'v outcome \<Rightarrow> ('w, 'v) callable" where
  "pure_work r = (\<lambda>w. (r, w))"

text \<open>
  The invariant of the queue: what was pushed is, in order, what has run, then what the
  thread holds, then what is still queued; packaged tasks are numbered in the order of
  their creation; a shared state is fulfilled exactly for the closures that have run, with
  the outcome of the stored callable; and the thread has exited only after a stop request.
\<close>

definition fifo_inv :: "('w, 'v) Worker \<Rightarrow> bool" where
  "fifo_inv s \<longleftrightarrow>
     executed s @ held s @ tasks s = submitted s \<and>
     submitted s = [0..<length (heap s)] \<and>
     (\<forall>k < length (heap s). (shared_state (heap s ! k) = None) = (k \<notin> set (executed s))) \<and>
     (\<forall>k < length (heap s). \<forall>r. shared_state (heap s ! k) = Some r \<longrightarrow>
        (\<exists>w. r = fst (fn (heap s ! k) w))) \<and>
     (thr s = Exited \<longrightarrow> \<not> running s)"

text \<open>
  The world after the closures \<open>ks\<close> have run in that order on \<open>w\<close>, and the world once
  everything pending in a worker has run.
\<close>

definition world_after :: "('w, 'v) callable list \<Rightarrow> nat list \<Rightarrow> 'w \<Rightarrow> 'w" where
  "world_after fs ks w = foldl (\<lambda>w k. snd ((fs ! k) w)) w ks"

definition pending_world :: "('w, 'v) Worker \<Rightarrow> 'w" where
  "pending_world s = world_after (map fn (heap s)) (held s @ tasks s) (world s)"

text \<open>
  What the closures have done, for a worker constructed on the world \<open>w0\<close>: the world is
  \<open>w0\<close> after the callables of the executed closures, in the order of their execution, and
  the shared state of each executed closure holds the outcome of its callable on the world
  that the closures executed before it had left.
\<close>

definition effects_inv :: "'w \<Rightarrow> ('w, 'v) Worker \<Rightarrow> bool" where
  "effects_inv w0 s \<longleftrightarrow>
     world s = world_after (map fn (heap s)) (executed s) w0 \<and>
     (\<forall>i < length (executed s).
        future_ready (executed s ! i) s =
          Some (fst (fn (heap s ! (executed s ! i))
                  (world_after (map fn (heap s)) (take i (executed s)) w0))))"

section \<open>The embedded runtime\<close>

text \<open>
  The runtime is reached through the C API of \<^verbatim>\<open>julia.h\<close>, which is not part of this
  repository: its operations are taken as a parameter, together with \<^verbatim>\<open>printf\<close> of the C
  library (\<open>fmt_2f\<close> renders a number under \<^verbatim>\<open>%.2f\<close>). \<open>'rt\<close> is the state outside the
  program on which the closures act: the runtime with its pending exception, and the
  standard output. \<open>'x\<close> is what a non-null \<^verbatim>\<open>jl_value_t*\<close> points to (a null
  pointer is \<open>None\<close>) and \<open>'ty\<close> is the type tag that \<^verbatim>\<open>jl_typeis(v, t)\<close> compares with \<open>t\<close>.
  A \<^verbatim>\<open>float\<close> is modelled by the real number it stands for (NaN and the infinities are
  left out); the rounding of a product is a parameter of the code that multiplies.
\<close>

record ('rt, 'x, 'ty) jl_api =
  jl_init :: "'rt \<Rightarrow> 'rt"
  jl_atexit_hook :: "int \<Rightarrow> 'rt \<Rightarrow> 'rt"
  jl_eval_string :: "string \<Rightarrow> 'rt \<Rightarrow> 'x option \<times> 'rt"
  jl_exception_occurred :: "'rt \<Rightarrow> 'x option"
  jl_box_float32 :: "real \<Rightarrow> 'rt \<Rightarrow> 'x \<times> 'rt"
  jl_call1 :: "'x option \<Rightarrow> 'x \<Rightarrow> 'rt \<Rightarrow> 'x option \<times> 'rt"
  jl_typeof :: "'x \<Rightarrow> 'ty"
  jl_float32_type :: "'ty"
  jl_unbox_float32 :: "'x \<Rightarrow> real"
  jl_typeof_str :: "'x \<Rightarrow> string"
  printf :: "string \<Rightarrow> 'rt \<Rightarrow> 'rt"
  fmt_2f :: "real \<Rightarrow> string"

text \<open>
  What the closures handed to the worker return: nothing, or a coefficient. \<^verbatim>\<open>jl_typeis\<close>
  reads the type tag in front of the value it is given; on a null pointer that read is
  outside any object, and \<open>NullDeref\<close> stands for the process that does not survive it.
\<close>

datatype task_result = Void | Coef real | NullDeref

section \<open>The singleton that owns the runtime\<close>

definition start_script :: string where
  \<open>start_script = ''println("JULIA  START")''\<close>


text \<open>The closures of \<^verbatim>\<open>Julia()\<close> and \<^verbatim>\<open>~Julia()\<close>.\<close>

definition init_task :: "('rt, 'x, 'ty) jl_api \<Rightarrow> ('rt, task_result) callable" where
  "init_task api = (\<lambda>rt. (Value Void, snd (jl_eval_string api start_script (jl_init api rt))))"


text \<open>
  \<^verbatim>\<open>Julia()\<close>: the member \<^verbatim>\<open>worker\<close> is constructed first, then the body runs the
  initialisation closure through the blocking \<^verbatim>\<open>run\<close>.
\<close>

definition Julia_ctor :: "('rt, 'x, 'ty) jl_api \<Rightarrow> 'rt \<Rightarrow> ('rt, task_result) Worker option" where
  "Julia_ctor api rt = map_option snd (Worker_run (init_task api) (Worker_ctor rt))"


text \<open>
  \<^verbatim>\<open>static Julia instance;\<close> inside \<^verbatim>\<open>Julia::instance()\<close>: not yet constructed (the runtime
  is in its state before \<^verbatim>\<open>jl_init\<close>), or constructed. The initialisation of a local static
  is guarded by the language: a thread that reaches the declaration while another one is
  constructing the object waits until the construction is complete, so calls of
  \<^verbatim>\<open>instance()\<close> take effect one after the other.
\<close>

datatype ('rt, 'v) Julia_static = NotConstructed 'rt | Constructed "('rt, 'v) Worker"

definition Julia_instance :: "('rt, 'x, 'ty) jl_api \<Rightarrow> ('rt, task_result) Julia_static \<Rightarrow> ('rt, task_result) Worker option" where
  "Julia_instance api st = (case st of NotConstructed rt \<Rightarrow> Julia_ctor api rt | Constructed j \<Rightarrow> Some j)"

text \<open>\<open>n\<close> calls of \<^verbatim>\<open>instance()\<close>, from whatever threads.\<close>

fun accesses :: "('rt, 'x, 'ty) jl_api \<Rightarrow> nat \<Rightarrow> ('rt, task_result) Julia_static \<Rightarrow> ('rt, task_result) Julia_static option" where
  "accesses api 0 st = Some st"
| "accesses api (Suc n) st = Option.bind (Julia_instance api st) (\<lambda>j. accesses api n (Constructed j))"

text \<open>\<^verbatim>\<open>Julia::run(f)\<close> is \<^verbatim>\<open>instance().worker.run(f)\<close>.\<close>

definition Julia_run :: "('rt, 'x, 'ty) jl_api \<Rightarrow> ('rt, task_result) callable \<Rightarrow> ('rt, task_result) Julia_static \<Rightarrow>
    (task_result outcome \<times> ('rt, task_result) Julia_static) option" where
  "Julia_run api f st =
     Option.bind (Julia_instance api st)
       (\<lambda>j. map_option (\<lambda>(r, j'). (r, Constructed j')) (Worker_run f j))"

text \<open>\<^verbatim>\<open>Julia::run(const char* s)\<close> runs \<^verbatim>\<open>[&] { jl_eval_string(s); }\<close>.\<close>

definition Julia_run_script :: "('rt, 'x, 'ty) jl_api \<Rightarrow> string \<Rightarrow> ('rt, task_result) Julia_static \<Rightarrow>
    (task_result outcome \<times> ('rt, task_result) Julia_static) option" where
  "Julia_run_script api s st = Julia_run api (\<lambda>rt. (Value Void, snd (jl_eval_string api s rt))) st"

section \<open>The plugin\<close>

text \<open>
  A \<^verbatim>\<open>float*\<close> is an address counted in \<^verbatim>\<open>float\<close> cells, the null pointer is 0, and the
  memory is a partial map: an access outside it is the crash of the process.
\<close>

type_synonym addr = nat

record 'x Amp =
  gain :: addr
  input :: addr
  output' :: addr
  db_to_coef :: "'x option"

definition AMP_GAIN :: "32 word" where "AMP_GAIN = 0"
definition AMP_INPUT :: "32 word" where "AMP_INPUT = 1"
definition AMP_OUTPUT :: "32 word" where "AMP_OUTPUT = 2"

text \<open>
  \<^verbatim>\<open>instantiate\<close> returns what \<^verbatim>\<open>calloc(1, sizeof(Amp))\<close> returns: a block of zero bytes, or
  the null pointer when no memory is available. It reads none of its arguments.
\<close>

definition instantiate :: "'d \<Rightarrow> real \<Rightarrow> string \<Rightarrow> 'fs \<Rightarrow> bool \<Rightarrow> 'x Amp option" where
  "instantiate descriptor rate bundle_path features calloc_succeeds =
     (if calloc_succeeds then Some \<lparr>gain = 0, input = 0, output' = 0, db_to_coef = None\<rparr> else None)"

text \<open>\<^verbatim>\<open>connect_port\<close>, on the instance that the handle points to.\<close>

definition connect_port :: "'x Amp \<Rightarrow> 32 word \<Rightarrow> addr \<Rightarrow> 'x Amp" where
  "connect_port amp port data =
     (if port = AMP_GAIN then amp\<lparr>gain := data\<rparr>
      else if port = AMP_INPUT then amp\<lparr>input := data\<rparr>
      else if port = AMP_OUTPUT then amp\<lparr>output' := data\<rparr>
      else amp)"

text \<open>
  The closure of the test call in \<^verbatim>\<open>activate\<close>, with what it prints: after the call it
  asks for a pending exception and prints its type name; the type test on \<^verbatim>\<open>ret\<close> follows
  in any case.
\<close>

definition activate_test_task :: "('rt, 'x, 'ty) jl_api \<Rightarrow> 'x Amp \<Rightarrow> ('rt, task_result) callable" where
  "activate_test_task api self =
     (\<lambda>rt. case jl_box_float32 api (- 3) (printf api ''Testing julia function.\<newline>'' rt) of (boxed, rt1) \<Rightarrow>
        (case jl_call1 api (db_to_coef self) boxed rt1 of (ret, rt2) \<Rightarrow>
           (let rt3 = (case jl_exception_occurred api rt2 of
                         None \<Rightarrow> rt2
                       | Some e \<Rightarrow> printf api (''E4: '' @ jl_typeof_str api e @ '' \<newline>'') rt2)
            in case ret of
                 None \<Rightarrow> (Value NullDeref, rt3)
               | Some v \<Rightarrow>
                   if jl_typeof api v = jl_float32_type api
                   then (Value (Coef (jl_unbox_float32 api v)),
                         printf api (''Got32 gain='' @ fmt_2f api (- 3) @ '' -> coef='' @
                                     fmt_2f api (jl_unbox_float32 api v) @ ''\<newline>'') rt3)
                   else (Value (Coef (- 1)),
                         printf api ''Received wrong type from julia.\<newline>'' rt3))))"

text \<open>
  The closure of the audio callback \<^verbatim>\<open>run\<close>: it prints nothing and asks for no pending
  exception. (What the callbacks print on their own thread is left out of the model.)
\<close>

definition run_task :: "('rt, 'x, 'ty) jl_api \<Rightarrow> 'x Amp \<Rightarrow> real \<Rightarrow> ('rt, task_result) callable" where
  "run_task api amp g =
     (\<lambda>rt. case jl_box_float32 api g rt of (boxed, rt1) \<Rightarrow>
        (case jl_call1 api (db_to_coef amp) boxed rt1 of (ret, rt2) \<Rightarrow>
           (case ret of
              None \<Rightarrow> (Value NullDeref, rt2)
            | Some v \<Rightarrow>
                if jl_typeof api v = jl_float32_type api
                then (Value (Coef (jl_unbox_float32 api v)), rt2)
                else (Value (Coef (- 1)), rt2))))"

text \<open>
  \<^verbatim>\<open>for (uint32_t pos = 0; pos < n_samples; pos++) output[pos] = input[pos] * coef;\<close>
  on the memory, from position \<open>pos\<close> on.
\<close>

function amp_loop :: "(real \<Rightarrow> real) \<Rightarrow> nat \<Rightarrow> nat \<Rightarrow> addr \<Rightarrow> addr \<Rightarrow> real \<Rightarrow> (addr \<rightharpoonup> real) \<Rightarrow> (addr \<rightharpoonup> real) option" where
  "amp_loop rnd pos n inp out coef m =
     (if pos < n then
        (case m (inp + pos) of
           None \<Rightarrow> None
         | Some x \<Rightarrow>
             if m (out + pos) = None then None
             else amp_loop rnd (pos + 1) n inp out coef (m(out + pos \<mapsto> rnd (x * coef))))
      else Some m)"
  by pat_completeness auto
termination
  by (relation "measure (\<lambda>(rnd, pos, n, inp, out, coef, m). n - pos)") auto

declare amp_loop.simps [simp del]

text \<open>How a callback of the plugin ends.\<close>

datatype 'a ending = Returns 'a | Crashes | Hangs | Escapes string

record ('rt, 'x) process =
  julia :: "('rt, task_result) Julia_static"
  mem :: "addr \<rightharpoonup> real"

text \<open>The audio callback \<^verbatim>\<open>run(instance, n_samples)\<close>.\<close>

definition run :: "('rt, 'x, 'ty) jl_api \<Rightarrow> (real \<Rightarrow> real) \<Rightarrow> 'x Amp \<Rightarrow> 32 word \<Rightarrow> ('rt, 'x) process \<Rightarrow>
    ('rt, 'x) process ending" where
  "run api rnd amp n_samples p =
     (case mem p (gain amp) of
        None \<Rightarrow> Crashes
      | Some g \<Rightarrow>
          (case Julia_run api (run_task api amp g) (julia p) of
             None \<Rightarrow> Hangs
           | Some (Thrown e, st) \<Rightarrow> Escapes e
           | Some (Value (Coef coef), st) \<Rightarrow>
               (case amp_loop rnd 0 (unat n_samples) (input amp) (output' amp) coef (mem p) of
                  None \<Rightarrow> Crashes
                | Some m \<Rightarrow> Returns (p\<lparr>julia := st, mem := m\<rparr>))
           | Some (Value _, st) \<Rightarrow> Crashes))"

text \<open>
  A singleton on which \<^verbatim>\<open>Julia::run\<close> can be called (not yet constructed, or constructed with
  its worker in a reachable state and no stop requested), and the state of the runtime that
  a closure submitted now will find when its turn comes.
\<close>

definition usable :: "('rt, 'v) Julia_static \<Rightarrow> bool" where
  "usable st = (case st of NotConstructed rt \<Rightarrow> True | Constructed j \<Rightarrow> fifo_inv j \<and> running j)"

definition runtime_at :: "('rt, 'x, 'ty) jl_api \<Rightarrow> ('rt, task_result) Julia_static \<Rightarrow> 'rt" where
  "runtime_at api st = (case st of NotConstructed rt \<Rightarrow> snd (init_task api rt) | Constructed j \<Rightarrow> pending_world j)"

section \<open>A small runtime for concrete runs\<close>

text \<open>
  Not part of the program: a runtime that counts its initialisations and finalisations,
  records the scripts it evaluates, raises on the script \<open>error()\<close>, and answers every call
  of a function with the reply it is given (a null pointer and a pending exception when the
  reply is \<open>None\<close>). A value is its type name and its payload; what is printed is kept
  line by line, numbers rendered as \<open>#.##\<close>.
\<close>

record stub_rt =
  inits :: nat
  finis :: nat
  evals :: "string list"
  pending :: bool
  printed :: "string list"

definition stub_rt0 :: stub_rt where
  "stub_rt0 = \<lparr>inits = 0, finis = 0, evals = [], pending = False, printed = []\<rparr>"

definition stub_api :: "(string \<times> real) option \<Rightarrow> (stub_rt, string \<times> real, string) jl_api" where
  "stub_api reply =
     \<lparr>jl_init = (\<lambda>rt. rt\<lparr>inits := Suc (inits rt)\<rparr>),
      jl_atexit_hook = (\<lambda>code rt. rt\<lparr>finis := Suc (finis rt)\<rparr>),
      jl_eval_string = (\<lambda>s rt. (None, rt\<lparr>evals := evals rt @ [s], pending := (s = ''error()'')\<rparr>)),
      jl_exception_occurred = (\<lambda>rt. if pending rt then Some (''ErrorException'', 0) else None),
      jl_box_float32 = (\<lambda>x rt. ((''Float32'', x), rt)),
      jl_call1 = (\<lambda>f a rt. (reply, rt\<lparr>pending := (reply = None)\<rparr>)),
      jl_typeof = fst,
      jl_float32_type = ''Float32'',
      jl_unbox_float32 = snd,
      jl_typeof_str = fst,
      printf = (\<lambda>s rt. rt\<lparr>printed := printed rt @ [s]\<rparr>),
      fmt_2f = (\<lambda>x. ''#.##'')\<rparr>"

definition stub_amp :: "(string \<times> real) Amp" where
  "stub_amp = \<lparr>gain = 5, input = 10, output' = 20, db_to_coef = Some (''Function'', 0)\<rparr>"

definition stub_mem :: "addr \<rightharpoonup> real" where
  "stub_mem = [5 \<mapsto> - 3, 10 \<mapsto> 1, 11 \<mapsto> 2, 12 \<mapsto> 3, 20 \<mapsto> 0, 21 \<mapsto> 0, 22 \<mapsto> 0]"

section \<open>Properties of the Worker\<close>

lemma held_simps:
  "thr s = AtLoop \<Longrightarrow> held s = []"
  "thr s = Exited \<Longrightarrow> held s = []"
  "thr s = Holding k \<Longrightarrow> held s = [k]"
  by (simp_all add: held_def)

lemma fifo_inv_ctor: "fifo_inv (Worker_ctor w)"
  by (simp add: fifo_inv_def Worker_ctor_def held_def)

lemma executed_in_heap:
  assumes "fifo_inv s" "k \<in> set (executed s)"
  shows "k < length (heap s)"
proof -
  from assms(1) have "set (executed s) \<subseteq> set [0..<length (heap s)]"
    by (metis fifo_inv_def set_append Un_upper1)
  with assms(2) show ?thesis by auto
qed

lemma fifo_inv_spawn:
  assumes "fifo_inv s"
  shows "fifo_inv (snd (spawn f s))"
proof -
  have fresh: "length (heap s) \<notin> set (executed s)"
    using executed_in_heap[OF assms] by blast
  show ?thesis
    using assms fresh
    by (auto simp: fifo_inv_def spawn_def Let_def held_def nth_append less_Suc_eq
             split: thread_pc.splits)
qed

lemma fifo_inv_stop: "fifo_inv s \<Longrightarrow> fifo_inv (request_stop s)"
  by (simp add: fifo_inv_def request_stop_def held_def)

lemma fifo_inv_dequeue:
  assumes "fifo_inv s" "dequeue s = Some s'"
  shows "fifo_inv s'"
  using assms
  by (cases "tasks s") (auto simp: fifo_inv_def dequeue_def held_def split: if_splits)

lemma held_in_heap:
  assumes "fifo_inv s" "thr s = Holding k"
  shows "k < length (heap s)" "k \<notin> set (executed s)" "k \<notin> set (tasks s)"
proof -
  from assms have eq: "executed s @ [k] @ tasks s = [0..<length (heap s)]"
    by (simp add: fifo_inv_def held_def)
  then have "k \<in> set [0..<length (heap s)]"
    by (metis append_Cons in_set_conv_decomp)
  then show "k < length (heap s)" by simp
  have "distinct (executed s @ [k] @ tasks s)"
    by (simp only: eq distinct_upt)
  then show "k \<notin> set (executed s)" "k \<notin> set (tasks s)" by auto
qed

lemma fifo_inv_execute:
  assumes "fifo_inv s" "execute s = Some s'"
  shows "fifo_inv s'"
proof -
  from assms(2) obtain k where k: "thr s = Holding k"
    by (auto simp: execute_def split: thread_pc.splits)
  note kk = held_in_heap[OF assms(1) k]
  from assms(2) k kk(1) have s': "s' = s\<lparr>heap := (heap s)[k := (heap s ! k)\<lparr>shared_state := Some (fst (fn (heap s ! k) (world s)))\<rparr>],
                      world := snd (fn (heap s ! k) (world s)),
                      thr := AtLoop,
                      executed := executed s @ [k]\<rparr>"
    by (simp add: execute_def Let_def)
  show ?thesis
    using assms(1) k kk unfolding s' fifo_inv_def held_def
    by (auto simp: nth_list_update)
qed

lemma fifo_inv_step:
  assumes "fifo_inv s" "threadFunc_step s = Some s'"
  shows "fifo_inv s'"
  using assms
  by (auto simp: threadFunc_step_def split: thread_pc.splits
           intro: fifo_inv_dequeue fifo_inv_execute)

lemma fifo_inv_fire:
  assumes "fifo_inv s" "fire e s = Some s'"
  shows "fifo_inv s'"
  using assms
  by (cases e) (auto intro: fifo_inv_spawn fifo_inv_step fifo_inv_stop)

lemma fifo_inv_fire_all:
  assumes "fifo_inv s" "fire_all es s = Some s'"
  shows "fifo_inv s'"
  using assms
proof (induction es arbitrary: s)
  case Nil
  then show ?case by simp
next
  case (Cons e es)
  then show ?case
    by (auto simp: bind_eq_Some_conv intro: fifo_inv_fire)
qed

lemma world_after_simps:
  "world_after fs [] w = w"
  "world_after fs (j # ks) w = world_after fs ks (snd ((fs ! j) w))"
  by (simp_all add: world_after_def)

lemma pending_in_heap:
  assumes "fifo_inv s" "k \<in> set (held s @ tasks s)"
  shows "k < length (heap s)" "k \<notin> set (executed s)" "future_ready k s = None"
proof -
  from assms(1) have eq: "executed s @ (held s @ tasks s) = [0..<length (heap s)]"
    by (simp add: fifo_inv_def)
  with assms(2) have "k \<in> set [0..<length (heap s)]"
    by (metis Un_iff set_append)
  then show lt: "k < length (heap s)" by simp
  have "distinct (executed s @ (held s @ tasks s))"
    by (simp only: eq distinct_upt)
  with assms(2) show nex: "k \<notin> set (executed s)" by auto
  from assms(1) lt nex show "future_ready k s = None"
    by (simp add: fifo_inv_def future_ready_def)
qed

lemma dequeue_running:
  assumes "thr s = AtLoop" "running s" "tasks s = j # js"
  shows "dequeue s = Some (s\<lparr>thr := Holding j, tasks := js\<rparr>)"
  using assms by (simp add: dequeue_def)

lemma execute_holding:
  assumes "thr s = Holding j" "j < length (heap s)"
  shows "execute s =
    Some (s\<lparr>heap := (heap s)[j := (heap s ! j)\<lparr>shared_state := Some (fst (fn (heap s ! j) (world s)))\<rparr>],
            world := snd (fn (heap s ! j) (world s)),
            thr := AtLoop,
            executed := executed s @ [j]\<rparr>)"
  using assms by (simp add: execute_def Let_def)

lemma map_fn_update:
  "j < length h \<Longrightarrow> map fn (h[j := (h ! j)\<lparr>shared_state := x\<rparr>]) = map fn h"
  by (simp add: list_eq_iff_nth_eq nth_list_update)

lemma await_last:
  assumes "fifo_inv s" "running s" "held s @ tasks s = ks @ [k]"
  shows "\<exists>s'. await k s =
            Some (fst (fn (heap s ! k) (world_after (map fn (heap s)) ks (world s))), s') \<and>
          world s' = snd (fn (heap s ! k) (world_after (map fn (heap s)) ks (world s))) \<and>
          tasks s' = [] \<and> thr s' = AtLoop \<and> running s' \<and> fifo_inv s' \<and>
          executed s' = submitted s \<and> submitted s' = submitted s \<and>
          map fn (heap s') = map fn (heap s)"
  using assms
proof (induction "2 * length (tasks s) + length (held s)" arbitrary: s ks rule: less_induct)
  case less
  have kin: "k \<in> set (held s @ tasks s)" using less.prems(3) by simp
  note kk = pending_in_heap[OF less.prems(1) kin]
  have notex: "thr s \<noteq> Exited"
    using less.prems(1,2) by (auto simp: fifo_inv_def)
  show ?case
  proof (cases "thr s")
    case AtLoop
    then have h: "held s = []" by (simp add: held_def)
    with less.prems(3) have "tasks s \<noteq> []" by auto
    then obtain j js where js: "tasks s = j # js" by (cases "tasks s") auto
    let ?s1 = "s\<lparr>thr := Holding j, tasks := js\<rparr>"
    have dq: "dequeue s = Some ?s1" by (rule dequeue_running[OF AtLoop less.prems(2) js])
    then have st: "threadFunc_step s = Some ?s1" by (simp add: threadFunc_step_def AtLoop)
    have inv1: "fifo_inv ?s1" by (rule fifo_inv_dequeue[OF less.prems(1) dq])
    have h1: "held ?s1 = [j]" by (simp add: held_def)
    have m: "2 * length (tasks ?s1) + length (held ?s1) < 2 * length (tasks s) + length (held s)"
      by (simp add: js h h1)
    have q: "held ?s1 @ tasks ?s1 = ks @ [k]"
      using less.prems(3) by (simp add: h js h1)
    from less.hyps[OF m inv1 _ q] less.prems(2)
    obtain s' where s': "await k ?s1 =
            Some (fst (fn (heap ?s1 ! k) (world_after (map fn (heap ?s1)) ks (world ?s1))), s')"
          "world s' = snd (fn (heap ?s1 ! k) (world_after (map fn (heap ?s1)) ks (world ?s1)))"
          "tasks s' = []" "thr s' = AtLoop" "running s'" "fifo_inv s'"
          "executed s' = submitted ?s1" "submitted s' = submitted ?s1"
          "map fn (heap s') = map fn (heap ?s1)"
      by auto
    have "await k s = await k ?s1"
      by (subst await.simps) (simp add: kk(3) st)
    with s' show ?thesis by simp
  next
    case (Holding j)
    then have h: "held s = [j]" by (simp add: held_def)
    have jin: "j \<in> set (held s @ tasks s)" by (simp add: h)
    note jj = pending_in_heap[OF less.prems(1) jin]
    let ?s1 = "s\<lparr>heap := (heap s)[j := (heap s ! j)\<lparr>shared_state := Some (fst (fn (heap s ! j) (world s)))\<rparr>],
            world := snd (fn (heap s ! j) (world s)),
            thr := AtLoop,
            executed := executed s @ [j]\<rparr>"
    have ex: "execute s = Some ?s1" by (rule execute_holding[OF Holding jj(1)])
    then have st: "threadFunc_step s = Some ?s1" by (simp add: threadFunc_step_def Holding)
    have inv1: "fifo_inv ?s1" by (rule fifo_inv_execute[OF less.prems(1) ex])
    have aw: "await k s = await k ?s1"
      by (subst await.simps) (simp add: kk(3) st)
    have mf: "map fn (heap ?s1) = map fn (heap s)"
      using jj(1) by (simp add: map_fn_update)
    show ?thesis
    proof (cases ks)
      case Nil
      with less.prems(3) h have jk: "j = k" and t: "tasks s = []" by auto
      have rdy: "future_ready k ?s1 = Some (fst (fn (heap s ! k) (world s)))"
        using kk(1) by (simp add: future_ready_def jk)
      have "await k ?s1 = Some (fst (fn (heap s ! k) (world s)), ?s1)"
        by (subst await.simps) (simp add: rdy)
      moreover have "executed ?s1 = submitted s"
        using less.prems(1) by (simp add: fifo_inv_def h t jk)
      ultimately show ?thesis
        using aw inv1 mf less.prems(2) Nil t
        by (simp add: world_after_simps jk)
    next
      case (Cons i ks')
      with less.prems(3) h have ij: "i = j" and t: "tasks s = ks' @ [k]" by auto
      have h1: "held ?s1 = []" by (simp add: held_def)
      have m: "2 * length (tasks ?s1) + length (held ?s1) < 2 * length (tasks s) + length (held s)"
        by (simp add: h h1)
      have q: "held ?s1 @ tasks ?s1 = ks' @ [k]"
        by (simp add: h1 t)
      have r1: "running ?s1" using less.prems(2) by simp
      from less.hyps[OF m inv1 r1 q]
      obtain s' where s': "await k ?s1 =
            Some (fst (fn (heap ?s1 ! k) (world_after (map fn (heap ?s1)) ks' (world ?s1))), s')"
          "world s' = snd (fn (heap ?s1 ! k) (world_after (map fn (heap ?s1)) ks' (world ?s1)))"
          "tasks s' = []" "thr s' = AtLoop" "running s'" "fifo_inv s'"
          "executed s' = submitted ?s1" "submitted s' = submitted ?s1"
          "map fn (heap s') = map fn (heap ?s1)"
        by blast
      have fk: "fn (heap ?s1 ! k) = fn (heap s ! k)"
        using kk(1) jj(1) by (simp add: nth_list_update)
      have wa: "world_after (map fn (heap s)) ks' (snd (fn (heap s ! j) (world s)))
                = world_after (map fn (heap s)) ks (world s)"
        using jj(1) by (simp add: Cons ij world_after_simps)
      have mf': "map fn ((heap s)[j := (heap s ! j)\<lparr>shared_state := Some (fst (fn (heap s ! j) (world s)))\<rparr>])
                 = map fn (heap s)"
        using mf by simp
      show ?thesis
        using s' aw fk by (simp add: mf' wa)
    qed
  next
    case Exited
    with notex show ?thesis by simp
  qed
qed

lemma world_after_append_heap:
  assumes "\<forall>k \<in> set ks. k < length fs"
  shows "world_after (fs @ gs) ks w = world_after fs ks w"
  using assms
  by (induction ks arbitrary: w) (simp_all add: world_after_simps nth_append)

lemma pending_lt_heap:
  assumes "fifo_inv s"
  shows "\<forall>k \<in> set (held s @ tasks s). k < length (heap s)"
  using pending_in_heap(1)[OF assms] by blast

lemma Worker_run_result:
  assumes "fifo_inv s" "running s"
  shows "\<exists>s'. Worker_run f s = Some (fst (f (pending_world s)), s') \<and>
          world s' = snd (f (pending_world s)) \<and>
          tasks s' = [] \<and> thr s' = AtLoop \<and> running s' \<and> fifo_inv s' \<and>
          executed s' = submitted s @ [length (heap s)] \<and>
          submitted s' = submitted s @ [length (heap s)] \<and>
          map fn (heap s') = map fn (heap s) @ [f]"
proof -
  define k where "k = length (heap s)"
  define s1 where "s1 = snd (spawn f s)"
  have sp: "spawn f s = (k, s1)" by (simp add: spawn_def Let_def k_def s1_def)
  have inv1: "fifo_inv s1" unfolding s1_def by (rule fifo_inv_spawn[OF assms(1)])
  have r1: "running s1" using assms(2) by (simp add: spawn_def Let_def s1_def)
  have q: "held s1 @ tasks s1 = (held s @ tasks s) @ [k]"
    by (simp add: spawn_def Let_def held_def s1_def k_def)
  have hp: "heap s1 = heap s @ [\<lparr>fn = f, shared_state = None\<rparr>]"
    and w1: "world s1 = world s" and sb: "submitted s1 = submitted s @ [k]"
    by (simp_all add: spawn_def Let_def s1_def k_def)
  have fk: "fn (heap s1 ! k) = f" by (simp add: hp k_def)
  have wa: "world_after (map fn (heap s1)) (held s @ tasks s) (world s1) = pending_world s"
    unfolding pending_world_def hp w1 map_append
    by (rule world_after_append_heap) (use pending_lt_heap[OF assms(1)] in simp)
  from await_last[OF inv1 r1 q]
  obtain s' where "await k s1 = Some (fst (f (pending_world s)), s')"
    "world s' = snd (f (pending_world s))" "tasks s' = []" "thr s' = AtLoop" "running s'"
    "fifo_inv s'" "executed s' = submitted s1" "submitted s' = submitted s1"
    "map fn (heap s') = map fn (heap s1)"
    unfolding fk wa by blast
  then show ?thesis
    by (simp add: Worker_run_def sp sb hp k_def)
qed

lemma await_slot_aux:
  assumes "await k s = Some y"
  shows "future_ready k (snd y) = Some (fst y)"
  by (rule await.raw_induct[where P = "\<lambda>k s y. future_ready k (snd y) = Some (fst y)", OF _ assms])
     (auto simp: bind_eq_Some_conv split: option.splits)

lemma Worker_run_slot:
  assumes "Worker_run f s = Some (r, s')"
  shows "future_ready (length (heap s)) s' = Some r"
  using await_slot_aux[of "length (heap s)" "snd (spawn f s)" "(r, s')"] assms
  by (simp add: Worker_run_def spawn_def Let_def)

lemma reachable_inv:
  assumes "fire_all es (Worker_ctor w0) = Some s"
  shows "fifo_inv s"
  by (rule fifo_inv_fire_all[OF fifo_inv_ctor assms])

text \<open>
  C1. Blocking correctness of \<^verbatim>\<open>Worker::run\<close>: in every state the worker can reach from its
  construction by any interleaving of pushes and worker steps, as long as no stop has been
  requested, \<^verbatim>\<open>run(work)\<close> of a pure \<open>work\<close> returns to its caller, and what it returns is
  exactly the outcome of \<open>work\<close>; a callable returning \<open>2 + 2\<close> gives 4.
\<close>

theorem Worker_run_returns_work_value:
  assumes "fire_all es (Worker_ctor w0) = Some s" and "running s"
  shows "\<exists>s'. Worker_run (pure_work r) s = Some (r, s')"
  using Worker_run_result[OF reachable_inv[OF assms(1)] assms(2), of "pure_work r"]
  by (auto simp: pure_work_def)

theorem Worker_run_returns_work_value_witness:
  "\<exists>s'. Worker_run (pure_work (Value (2 + 2 :: int)))
          (snd (spawn (pure_work (Value 7)) (Worker_ctor ()))) = Some (Value 4, s')"
  using Worker_run_returns_work_value[of "[Spawn (pure_work (Value 7))]" "()" _ "Value (2 + 2 :: int)"]
  by (simp add: spawn_def Worker_ctor_def)

subsection \<open>Order of execution\<close>

lemma world_after_snoc:
  "world_after fs (ks @ [k]) w = snd ((fs ! k) (world_after fs ks w))"
  by (simp add: world_after_def)

lemma effects_inv_ctor: "effects_inv w0 (Worker_ctor w0)"
  by (simp add: effects_inv_def Worker_ctor_def world_after_def)

lemma future_ready_heap:
  "heap s' = heap s \<Longrightarrow> future_ready k s' = future_ready k s"
  by (simp add: future_ready_def)

lemma effects_inv_same:
  assumes "effects_inv w0 s" "heap s' = heap s" "executed s' = executed s" "world s' = world s"
  shows "effects_inv w0 s'"
  using assms(1) unfolding effects_inv_def assms(2,3,4) future_ready_heap[OF assms(2)] .

lemma effects_inv_stop: "effects_inv w0 s \<Longrightarrow> effects_inv w0 (request_stop s)"
  by (erule effects_inv_same) (simp_all add: request_stop_def)

lemma effects_inv_dequeue:
  assumes "effects_inv w0 s" "dequeue s = Some s'"
  shows "effects_inv w0 s'"
proof -
  from assms(2) have "heap s' = heap s" "executed s' = executed s" "world s' = world s"
    by (auto simp: dequeue_def split: if_splits)
  with assms(1) show ?thesis by (rule effects_inv_same)
qed

lemma effects_inv_spawn:
  assumes "fifo_inv s" "effects_inv w0 s"
  shows "effects_inv w0 (snd (spawn f s))"
proof -
  let ?s1 = "snd (spawn f s)"
  have hp: "heap ?s1 = heap s @ [\<lparr>fn = f, shared_state = None\<rparr>]"
    and ex: "executed ?s1 = executed s" and w: "world ?s1 = world s"
    by (simp_all add: spawn_def Let_def)
  have lt: "\<forall>k \<in> set (executed s). k < length (map fn (heap s))"
    using executed_in_heap[OF assms(1)] by simp
  have wa: "world_after (map fn (heap s) @ [f]) (executed s) w0
            = world_after (map fn (heap s)) (executed s) w0"
    by (rule world_after_append_heap[OF lt])
  have a: "world ?s1 = world_after (map fn (heap ?s1)) (executed ?s1) w0"
    using assms(2) by (simp add: hp ex w wa effects_inv_def)
  have b: "future_ready (executed ?s1 ! i) ?s1 =
          Some (fst (fn (heap ?s1 ! (executed ?s1 ! i))
                  (world_after (map fn (heap ?s1)) (take i (executed ?s1)) w0)))"
    if "i < length (executed ?s1)" for i
  proof -
    from that have i: "i < length (executed s)" by (simp add: ex)
    then have kin: "executed s ! i \<in> set (executed s)" by simp
    then have klt: "executed s ! i < length (heap s)" by (rule executed_in_heap[OF assms(1)])
    have lt': "\<forall>k \<in> set (take i (executed s)). k < length (map fn (heap s))"
      using lt by (meson in_set_takeD)
    have wa': "world_after (map fn (heap s) @ [f]) (take i (executed s)) w0
            = world_after (map fn (heap s)) (take i (executed s)) w0"
      by (rule world_after_append_heap[OF lt'])
    from assms(2) i have "future_ready (executed s ! i) s =
          Some (fst (fn (heap s ! (executed s ! i))
                  (world_after (map fn (heap s)) (take i (executed s)) w0)))"
      by (simp add: effects_inv_def)
    then show ?thesis
      using klt by (simp add: hp ex wa' future_ready_def nth_append)
  qed
  from a b show ?thesis unfolding effects_inv_def by blast
qed

lemma effects_inv_execute:
  assumes "fifo_inv s" "effects_inv w0 s" "execute s = Some s'"
  shows "effects_inv w0 s'"
proof -
  from assms(3) obtain k where k: "thr s = Holding k"
    by (auto simp: execute_def split: thread_pc.splits)
  note kk = held_in_heap[OF assms(1) k]
  define r where "r = fst (fn (heap s ! k) (world s))"
  from execute_holding[OF k kk(1)] assms(3)
  have hp: "heap s' = (heap s)[k := (heap s ! k)\<lparr>shared_state := Some r\<rparr>]"
    and w: "world s' = snd (fn (heap s ! k) (world s))"
    and ex: "executed s' = executed s @ [k]"
    by (auto simp: r_def)
  have mf: "map fn (heap s') = map fn (heap s)"
    unfolding hp by (rule map_fn_update[OF kk(1)])
  have w0: "world s = world_after (map fn (heap s)) (executed s) w0"
    using assms(2) by (simp add: effects_inv_def)
  have a: "world s' = world_after (map fn (heap s')) (executed s') w0"
    using kk(1) by (simp add: mf ex w world_after_snoc w0[symmetric])
  have b: "future_ready (executed s' ! i) s' =
          Some (fst (fn (heap s' ! (executed s' ! i))
                  (world_after (map fn (heap s')) (take i (executed s')) w0)))"
    if "i < length (executed s')" for i
  proof (cases "i < length (executed s)")
    case True
    then have kin: "executed s ! i \<in> set (executed s)" by simp
    then have klt: "executed s ! i < length (heap s)" by (rule executed_in_heap[OF assms(1)])
    from kin kk(2) have ne: "executed s ! i \<noteq> k" by auto
    from assms(2) True have old: "future_ready (executed s ! i) s =
          Some (fst (fn (heap s ! (executed s ! i))
                  (world_after (map fn (heap s)) (take i (executed s)) w0)))"
      by (simp add: effects_inv_def)
    have e1: "executed s' ! i = executed s ! i" using True by (simp add: ex nth_append)
    have t1: "take i (executed s') = take i (executed s)" using True by (simp add: ex)
    have fr: "future_ready (executed s ! i) s' = future_ready (executed s ! i) s"
      using klt ne by (simp add: hp future_ready_def)
    have fnk: "fn (heap s' ! (executed s ! i)) = fn (heap s ! (executed s ! i))"
      using klt ne by (simp add: hp)
    show ?thesis unfolding e1 t1 mf fr fnk by (fact old)
  next
    case False
    with that have i: "i = length (executed s)" by (simp add: ex)
    have e1: "executed s' ! i = k" by (simp add: ex i)
    have t1: "take i (executed s') = executed s" by (simp add: ex i)
    have fr: "future_ready k s' = Some r"
      using kk(1) by (simp add: hp future_ready_def)
    have fnk: "fn (heap s' ! k) = fn (heap s ! k)"
      using kk(1) by (simp add: hp)
    show ?thesis unfolding e1 t1 mf fr fnk w0[symmetric] r_def ..
  qed
  from a b show ?thesis unfolding effects_inv_def by blast
qed

lemma effects_inv_fire:
  assumes "fifo_inv s" "effects_inv w0 s" "fire e s = Some s'"
  shows "effects_inv w0 s'"
proof (cases e)
  case (Spawn f)
  with assms show ?thesis by (auto intro: effects_inv_spawn)
next
  case Step
  with assms show ?thesis
    by (auto simp: threadFunc_step_def split: thread_pc.splits
             intro: effects_inv_dequeue effects_inv_execute)
next
  case Stop
  with assms show ?thesis by (auto intro: effects_inv_stop)
qed

lemma effects_inv_fire_all:
  assumes "fifo_inv s" "effects_inv w0 s" "fire_all es s = Some s'"
  shows "effects_inv w0 s'"
  using assms
proof (induction es arbitrary: s)
  case Nil
  then show ?case by simp
next
  case (Cons e es)
  from Cons.prems(3) obtain s1 where s1: "fire e s = Some s1" "fire_all es s1 = Some s'"
    by (auto simp: bind_eq_Some_conv)
  from Cons.IH[OF fifo_inv_fire[OF Cons.prems(1) s1(1)]
                  effects_inv_fire[OF Cons.prems(1,2) s1(1)] s1(2)]
  show ?case .
qed

lemma reachable_effects:
  assumes "fire_all es (Worker_ctor w0) = Some s"
  shows "effects_inv w0 s"
  by (rule effects_inv_fire_all[OF fifo_inv_ctor effects_inv_ctor assms])

text \<open>
  C2. FIFO order: after any interleaving of pushes by any threads, worker steps and a stop
  request, the closures that have run, then the one the thread holds, then the ones still
  queued are, in this order, exactly the closures in the order of their submission; so the
  execution order is a prefix of the submission order. The order is that of the effects: the
  world is the initial one after the callables of the executed closures, applied in this
  order, and each executed closure's shared state holds the outcome of its callable on the
  world left by the closures before it. A wake cycle is enabled whenever the queue is not
  empty, moves exactly the head of the queue out and changes nothing else; the next step of
  the thread is enabled and runs exactly that closure: it applies its callable to the world
  and fulfils its shared state.
\<close>

theorem fifo_execution_order:
  assumes "fire_all es (Worker_ctor w0) = Some s"
  shows "executed s @ held s @ tasks s = submitted s \<and>
         world s = world_after (map fn (heap s)) (executed s) w0 \<and>
         (\<forall>i < length (executed s).
            future_ready (executed s ! i) s =
              Some (fst (fn (heap s ! (executed s ! i))
                      (world_after (map fn (heap s)) (take i (executed s)) w0)))) \<and>
         (thr s = AtLoop \<and> running s \<and> tasks s \<noteq> [] \<longrightarrow> threadFunc_step s \<noteq> None) \<and>
         (\<forall>k. thr s = Holding k \<longrightarrow> threadFunc_step s \<noteq> None) \<and>
         (\<forall>s'. thr s = AtLoop \<and> running s \<and> threadFunc_step s = Some s' \<longrightarrow>
               tasks s = hd (tasks s) # tasks s' \<and> held s' = [hd (tasks s)] \<and>
               executed s' = executed s \<and> world s' = world s) \<and>
         (\<forall>k s'. thr s = Holding k \<and> threadFunc_step s = Some s' \<longrightarrow>
               executed s' = executed s @ [k] \<and> tasks s' = tasks s \<and> held s' = [] \<and>
               world s' = snd (fn (heap s ! k) (world s)) \<and>
               future_ready k s' = Some (fst (fn (heap s ! k) (world s))))"
proof -
  have inv: "fifo_inv s" by (rule reachable_inv[OF assms])
  then have a: "executed s @ held s @ tasks s = submitted s" by (simp add: fifo_inv_def)
  have eff: "effects_inv w0 s" by (rule reachable_effects[OF assms])
  then have w: "world s = world_after (map fn (heap s)) (executed s) w0"
    by (simp add: effects_inv_def)
  from eff have r: "\<forall>i < length (executed s).
            future_ready (executed s ! i) s =
              Some (fst (fn (heap s ! (executed s ! i))
                      (world_after (map fn (heap s)) (take i (executed s)) w0)))"
    by (simp add: effects_inv_def)
  have en1: "thr s = AtLoop \<and> running s \<and> tasks s \<noteq> [] \<longrightarrow> threadFunc_step s \<noteq> None"
    by (simp add: threadFunc_step_def dequeue_def)
  have en2: "\<forall>k. thr s = Holding k \<longrightarrow> threadFunc_step s \<noteq> None"
  proof (intro allI impI)
    fix k assume k: "thr s = Holding k"
    from execute_holding[OF k held_in_heap(1)[OF inv k]]
    show "threadFunc_step s \<noteq> None" by (simp add: threadFunc_step_def k)
  qed
  have b: "\<forall>s'. thr s = AtLoop \<and> running s \<and> threadFunc_step s = Some s' \<longrightarrow>
               tasks s = hd (tasks s) # tasks s' \<and> held s' = [hd (tasks s)] \<and>
               executed s' = executed s \<and> world s' = world s"
    by (cases "tasks s") (auto simp: threadFunc_step_def dequeue_def held_def)
  have c: "\<forall>k s'. thr s = Holding k \<and> threadFunc_step s = Some s' \<longrightarrow>
               executed s' = executed s @ [k] \<and> tasks s' = tasks s \<and> held s' = [] \<and>
               world s' = snd (fn (heap s ! k) (world s)) \<and>
               future_ready k s' = Some (fst (fn (heap s ! k) (world s)))"
  proof (intro allI impI)
    fix k s' assume h: "thr s = Holding k \<and> threadFunc_step s = Some s'"
    then have k: "thr s = Holding k" by simp
    note kk = held_in_heap(1)[OF inv k]
    from h have "threadFunc_step s = Some s'" by simp
    then have ex: "execute s = Some s'" by (simp add: threadFunc_step_def k)
    from execute_holding[OF k kk] ex
    have s': "s' = s\<lparr>heap := (heap s)[k := (heap s ! k)\<lparr>shared_state := Some (fst (fn (heap s ! k) (world s)))\<rparr>],
            world := snd (fn (heap s ! k) (world s)),
            thr := AtLoop,
            executed := executed s @ [k]\<rparr>"
      by simp
    show "executed s' = executed s @ [k] \<and> tasks s' = tasks s \<and> held s' = [] \<and>
               world s' = snd (fn (heap s ! k) (world s)) \<and>
               future_ready k s' = Some (fst (fn (heap s ! k) (world s)))"
      using kk unfolding s' by (simp add: held_def future_ready_def)
  qed
  show ?thesis
    by (intro conjI) (fact a w r en1 en2 b c)+
qed

theorem fifo_execution_order_witness:
  "\<exists>s. fire_all [Spawn (\<lambda>w. (Value w, w + 1)), Spawn (\<lambda>w. (Value w, w * 10)), Step, Step, Step]
          (Worker_ctor (5::nat)) = Some s \<and>
       executed s @ held s @ tasks s = submitted s \<and>
       world s = world_after (map fn (heap s)) (executed s) 5 \<and>
       submitted s = [0, 1] \<and> executed s = [0] \<and> held s = [1] \<and> tasks s = [] \<and>
       world s = 6 \<and> future_ready 0 s = Some (Value 5) \<and> future_ready 1 s = None \<and>
       threadFunc_step s \<noteq> None"
proof -
  define s where "s = the (fire_all [Spawn (\<lambda>w. (Value w, w + 1)), Spawn (\<lambda>w. (Value w, w * 10)),
                                     Step, Step, Step] (Worker_ctor (5::nat)))"
  have eq: "fire_all [Spawn (\<lambda>w. (Value w, w + 1)), Spawn (\<lambda>w. (Value w, w * 10)), Step, Step, Step]
              (Worker_ctor (5::nat)) = Some s"
    by (simp add: s_def Worker_ctor_def spawn_def threadFunc_step_def dequeue_def execute_def)
  have vals: "submitted s = [0, 1]" "executed s = [0]" "held s = [1]" "tasks s = []"
    "world s = 6" "future_ready 0 s = Some (Value 5)" "future_ready 1 s = None"
    by (simp_all add: s_def Worker_ctor_def spawn_def threadFunc_step_def dequeue_def execute_def
          held_def future_ready_def)
  have h: "thr s = Holding 1"
    by (simp add: s_def Worker_ctor_def spawn_def threadFunc_step_def dequeue_def execute_def)
  note t = fifo_execution_order[OF eq]
  from t have a: "executed s @ held s @ tasks s = submitted s" by (elim conjE)
  from t have b: "world s = world_after (map fn (heap s)) (executed s) 5" by (elim conjE)
  from t have "\<forall>k. thr s = Holding k \<longrightarrow> threadFunc_step s \<noteq> None" by (elim conjE)
  with h have c: "threadFunc_step s \<noteq> None" by blast
  show ?thesis
    by (intro exI[of _ s] conjI) (fact eq a b vals c)+
qed

subsection \<open>Failure of a task\<close>

lemma running_without_stop:
  assumes "fire_all es s = Some s'" "running s" "Stop \<notin> set es"
  shows "running s'"
  using assms
proof (induction es arbitrary: s)
  case Nil
  then show ?case by simp
next
  case (Cons e es)
  from Cons.prems(1) obtain s1 where s1: "fire e s = Some s1" "fire_all es s1 = Some s'"
    by (auto simp: bind_eq_Some_conv)
  have "running s1"
    using s1(1) Cons.prems(2,3)
    by (cases e) (auto simp: spawn_def Let_def threadFunc_step_def dequeue_def execute_def
                       split: thread_pc.splits if_splits)
  from Cons.IH[OF s1(2) this] Cons.prems(3) show ?case by simp
qed

text \<open>
  C3. Failure capture: when the callable throws in the world it meets when its turn comes,
  \<^verbatim>\<open>run\<close> returns to its caller with the thrown failure, which is what the task's shared
  state holds; the effects the callable had before it threw are kept; afterwards the worker
  thread is still at the head of its loop with \<^verbatim>\<open>running\<close> true, and a further \<^verbatim>\<open>run\<close>
  returns too. In any interleaving, the thread has exited only if a stop was requested.
\<close>

theorem task_failure_is_captured:
  assumes "fire_all es (Worker_ctor w0) = Some s"
  shows "(thr s = Exited \<longrightarrow> Stop \<in> set es) \<and>
         (running s \<and> fst (f (pending_world s)) = Thrown e \<longrightarrow>
            (\<exists>s'. Worker_run f s = Some (Thrown e, s') \<and>
                  future_ready (length (heap s)) s' = Some (Thrown e) \<and>
                  world s' = snd (f (pending_world s)) \<and>
                  running s' \<and> thr s' = AtLoop \<and>
                  (\<exists>r s''. Worker_run g s' = Some (r, s''))))"
proof -
  have inv: "fifo_inv s" by (rule reachable_inv[OF assms])
  have a: "Stop \<in> set es" if "thr s = Exited"
  proof (rule ccontr)
    assume "Stop \<notin> set es"
    from running_without_stop[OF assms _ this] have "running s" by (simp add: Worker_ctor_def)
    with inv that show False by (simp add: fifo_inv_def)
  qed
  have b: "\<exists>s'. Worker_run f s = Some (Thrown e, s') \<and>
                  future_ready (length (heap s)) s' = Some (Thrown e) \<and>
                  world s' = snd (f (pending_world s)) \<and>
                  running s' \<and> thr s' = AtLoop \<and>
                  (\<exists>r s''. Worker_run g s' = Some (r, s''))"
    if h: "running s \<and> fst (f (pending_world s)) = Thrown e"
  proof -
    from h have r: "running s" and t: "fst (f (pending_world s)) = Thrown e" by simp_all
    from Worker_run_result[OF inv r, of f]
    obtain s' where s': "Worker_run f s = Some (fst (f (pending_world s)), s')"
      "world s' = snd (f (pending_world s))" "running s'" "thr s' = AtLoop" "fifo_inv s'"
      by blast
    have run: "Worker_run f s = Some (Thrown e, s')" using s'(1) t by simp
    have slot: "future_ready (length (heap s)) s' = Some (Thrown e)"
      by (rule Worker_run_slot[OF run])
    from Worker_run_result[OF s'(5,3), of g]
    have again: "\<exists>r s''. Worker_run g s' = Some (r, s'')" by blast
    show ?thesis
      by (intro exI[of _ s'] conjI) (fact run slot s'(2) s'(3) s'(4) again)+
  qed
  from a b show ?thesis by blast
qed

theorem task_failure_is_captured_witness:
  "\<exists>s'. Worker_run (\<lambda>w. if w = 1 then (Thrown ''boom'', Suc w) else (Value 0, w))
            (snd (spawn (\<lambda>w. (Value (1::int), Suc w)) (Worker_ctor (0::nat))))
           = Some (Thrown ''boom'', s') \<and>
         future_ready 1 s' = Some (Thrown ''boom'') \<and> world s' = 2 \<and>
         running s' \<and> thr s' = AtLoop \<and>
         (\<exists>r s''. Worker_run (pure_work (Value 4)) s' = Some (r, s''))"
proof -
  define f :: "(nat, int) callable"
    where "f = (\<lambda>w. if w = 1 then (Thrown ''boom'', Suc w) else (Value 0, w))"
  define s :: "(nat, int) Worker"
    where "s = snd (spawn (\<lambda>w. (Value (1::int), Suc w)) (Worker_ctor (0::nat)))"
  have eq: "fire_all [Spawn (\<lambda>w. (Value (1::int), Suc w))] (Worker_ctor (0::nat)) = Some s"
    by (simp add: s_def)
  have r: "running s" by (simp add: s_def spawn_def Worker_ctor_def)
  have pw: "pending_world s = 1"
    by (simp add: s_def spawn_def Worker_ctor_def pending_world_def held_def world_after_def)
  have t: "fst (f (pending_world s)) = Thrown ''boom''" by (simp add: pw f_def)
  have l: "length (heap s) = 1" by (simp add: s_def spawn_def Worker_ctor_def)
  have w: "snd (f (pending_world s)) = 2" by (simp add: pw f_def)
  from task_failure_is_captured[OF eq, of f "''boom''" "pure_work (Value 4)"] r t
  have "\<exists>s'. Worker_run f s = Some (Thrown ''boom'', s') \<and>
                  future_ready (length (heap s)) s' = Some (Thrown ''boom'') \<and>
                  world s' = snd (f (pending_world s)) \<and>
                  running s' \<and> thr s' = AtLoop \<and>
                  (\<exists>r s''. Worker_run (pure_work (Value 4)) s' = Some (r, s''))"
    by blast
  then show ?thesis unfolding l w unfolding f_def s_def .
qed

subsection \<open>Shutdown\<close>

lemma join_after_stop:
  assumes "fifo_inv s" "\<not> running s"
  shows "\<exists>s'. join s = Some s' \<and> thr s' = Exited \<and> \<not> running s' \<and> tasks s' = tasks s \<and>
              executed s' = executed s @ held s \<and> (held s = [] \<longrightarrow> world s' = world s)"
proof (cases "thr s")
  case AtLoop
  let ?s1 = "s\<lparr>thr := Exited\<rparr>"
  have st: "threadFunc_step s = Some ?s1"
    using assms(2) by (simp add: threadFunc_step_def AtLoop dequeue_def)
  have "join s = join ?s1" by (subst join.simps) (simp add: AtLoop st)
  also have "\<dots> = Some ?s1" by (subst join.simps) simp
  finally show ?thesis using assms(2) AtLoop by (simp add: held_def)
next
  case (Holding j)
  note jj = held_in_heap[OF assms(1) Holding]
  let ?s1 = "s\<lparr>heap := (heap s)[j := (heap s ! j)\<lparr>shared_state := Some (fst (fn (heap s ! j) (world s)))\<rparr>],
            world := snd (fn (heap s ! j) (world s)),
            thr := AtLoop,
            executed := executed s @ [j]\<rparr>"
  let ?s2 = "?s1\<lparr>thr := Exited\<rparr>"
  have st: "threadFunc_step s = Some ?s1"
    using execute_holding[OF Holding jj(1)] by (simp add: threadFunc_step_def Holding)
  have st1: "threadFunc_step ?s1 = Some ?s2"
    using assms(2) by (simp add: threadFunc_step_def dequeue_def)
  have "join s = join ?s1" by (subst join.simps) (simp add: Holding st)
  also have "\<dots> = join ?s2" by (subst join.simps) (simp add: st1)
  also have "\<dots> = Some ?s2" by (subst join.simps) simp
  finally show ?thesis using assms(2) Holding by (simp add: held_def)
next
  case Exited
  have "join s = Some s" by (subst join.simps) (simp add: Exited)
  then show ?thesis using assms(2) Exited by (simp add: held_def)
qed

lemma stopped_queue_stays:
  assumes "fire_all es s = Some s'" "\<not> running s"
  shows "\<not> running s' \<and> (\<exists>ys. tasks s' = tasks s @ ys)"
  using assms
proof (induction es arbitrary: s)
  case Nil
  then show ?case by simp
next
  case (Cons e es)
  from Cons.prems(1) obtain s1 where s1: "fire e s = Some s1" "fire_all es s1 = Some s'"
    by (auto simp: bind_eq_Some_conv)
  have one: "\<not> running s1 \<and> (\<exists>ys. tasks s1 = tasks s @ ys)"
    using s1(1) Cons.prems(2)
    by (cases e) (auto simp: spawn_def Let_def threadFunc_step_def dequeue_def execute_def
                       request_stop_def split: thread_pc.splits if_splits)
  with Cons.IH[OF s1(2)] show ?case by auto
qed

lemma queued_not_executed:
  assumes "fifo_inv s"
  shows "set (tasks s) \<inter> set (executed s) = {}"
proof -
  from assms have "distinct (executed s @ held s @ tasks s)"
    by (simp add: fifo_inv_def)
  then show ?thesis by auto
qed

lemma join_after_stop_effects:
  assumes "fifo_inv s" "\<not> running s"
  shows "\<exists>s'. join s = Some s' \<and> fifo_inv s' \<and>
           (\<forall>k. thr s = Holding k \<longrightarrow>
                world s' = snd (fn (heap s ! k) (world s)) \<and>
                future_ready k s' = Some (fst (fn (heap s ! k) (world s))))"
proof (cases "thr s")
  case AtLoop
  let ?s1 = "s\<lparr>thr := Exited\<rparr>"
  have st: "threadFunc_step s = Some ?s1"
    using assms(2) by (simp add: threadFunc_step_def AtLoop dequeue_def)
  have inv1: "fifo_inv ?s1" by (rule fifo_inv_step[OF assms(1) st])
  have "join s = join ?s1" by (subst join.simps) (simp add: AtLoop st)
  also have "\<dots> = Some ?s1" by (subst join.simps) simp
  finally have "join s = Some ?s1" .
  with inv1 AtLoop show ?thesis by simp
next
  case (Holding j)
  note jj = held_in_heap[OF assms(1) Holding]
  let ?s1 = "s\<lparr>heap := (heap s)[j := (heap s ! j)\<lparr>shared_state := Some (fst (fn (heap s ! j) (world s)))\<rparr>],
            world := snd (fn (heap s ! j) (world s)),
            thr := AtLoop,
            executed := executed s @ [j]\<rparr>"
  let ?s2 = "?s1\<lparr>thr := Exited\<rparr>"
  have st: "threadFunc_step s = Some ?s1"
    using execute_holding[OF Holding jj(1)] by (simp add: threadFunc_step_def Holding)
  have st1: "threadFunc_step ?s1 = Some ?s2"
    using assms(2) by (simp add: threadFunc_step_def dequeue_def)
  have inv1: "fifo_inv ?s1" by (rule fifo_inv_step[OF assms(1) st])
  have inv2: "fifo_inv ?s2" by (rule fifo_inv_step[OF inv1 st1])
  have "join s = join ?s1" by (subst join.simps) (simp add: Holding st)
  also have "\<dots> = join ?s2" by (subst join.simps) (simp add: st1)
  also have "\<dots> = Some ?s2" by (subst join.simps) simp
  finally have j: "join s = Some ?s2" .
  have w: "world ?s2 = snd (fn (heap s ! j) (world s))" by simp
  have f: "future_ready j ?s2 = Some (fst (fn (heap s ! j) (world s)))"
    using jj(1) by (simp add: future_ready_def)
  from j inv2 w f Holding show ?thesis by simp
next
  case Exited
  have "join s = Some s" by (subst join.simps) (simp add: Exited)
  with assms(1) Exited show ?thesis by simp
qed

lemma exited_is_final:
  assumes "fire_all fs s = Some s''" "thr s = Exited"
  shows "thr s'' = Exited \<and> executed s'' = executed s \<and> world s'' = world s"
  using assms
proof (induction fs arbitrary: s)
  case Nil
  then show ?case by simp
next
  case (Cons e fs)
  from Cons.prems(1) obtain s1 where s1: "fire e s = Some s1" "fire_all fs s1 = Some s''"
    by (auto simp: bind_eq_Some_conv)
  have one: "thr s1 = Exited \<and> executed s1 = executed s \<and> world s1 = world s"
    using s1(1) Cons.prems(2)
    by (cases e) (auto simp: spawn_def Let_def threadFunc_step_def request_stop_def)
  with Cons.IH[OF s1(2)] show ?case by simp
qed

text \<open>
  C8. Shutdown: \<^verbatim>\<open>~Worker\<close> returns, and when it does \<^verbatim>\<open>running\<close> is false and the thread has
  exited; the queue is as it was when the stop was requested, and the shared states of its
  closures are unfulfilled; only the closure the thread had already taken out is completed
  (its callable applied to the world, its shared state fulfilled), and without such a
  closure the world is untouched. After the destructor the thread takes no step, and
  whatever happens next nothing is executed and the world stays as it is; in no
  continuation whatsoever after the stop request does a closure that was queued at that
  moment get executed.
\<close>

theorem shutdown_discards_queue:
  assumes "fire_all es (Worker_ctor w0) = Some s"
  shows "\<exists>s'. Worker_dtor s = Some s' \<and> thr s' = Exited \<and> \<not> running s' \<and>
              tasks s' = tasks s \<and> executed s' = executed s @ held s \<and>
              (held s = [] \<longrightarrow> world s' = world s) \<and>
              (\<forall>k. thr s = Holding k \<longrightarrow>
                   world s' = snd (fn (heap s ! k) (world s)) \<and>
                   future_ready k s' = Some (fst (fn (heap s ! k) (world s)))) \<and>
              (\<forall>k \<in> set (tasks s). future_ready k s' = None) \<and>
              threadFunc_step s' = None \<and>
              (\<forall>fs s''. fire_all fs s' = Some s'' \<longrightarrow>
                  thr s'' = Exited \<and> executed s'' = executed s' \<and> world s'' = world s') \<and>
              (\<forall>fs s''. fire_all fs (request_stop s) = Some s'' \<longrightarrow>
                  set (tasks s) \<inter> set (executed s'') = {})"
proof -
  have inv: "fifo_inv (request_stop s)"
    by (rule fifo_inv_stop[OF reachable_inv[OF assms]])
  have nr: "\<not> running (request_stop s)" by (simp add: request_stop_def)
  from join_after_stop[OF inv nr]
  obtain s' where s': "join (request_stop s) = Some s'" "thr s' = Exited" "\<not> running s'"
    "tasks s' = tasks s" "executed s' = executed s @ held s"
    "held s = [] \<longrightarrow> world s' = world s"
    by (auto simp: request_stop_def held_def)
  from join_after_stop_effects[OF inv nr] s'(1)
  have inv': "fifo_inv s'"
    and eff: "\<forall>k. thr s = Holding k \<longrightarrow>
                   world s' = snd (fn (heap s ! k) (world s)) \<and>
                   future_ready k s' = Some (fst (fn (heap s ! k) (world s)))"
    by (auto simp: request_stop_def)
  have d: "Worker_dtor s = Some s'" using s'(1) by (simp add: Worker_dtor_def)
  have q: "\<forall>k \<in> set (tasks s). future_ready k s' = None"
  proof
    fix k assume "k \<in> set (tasks s)"
    then have "k \<in> set (held s' @ tasks s')" by (simp add: s'(4))
    then show "future_ready k s' = None" by (rule pending_in_heap(3)[OF inv'])
  qed
  have stuck: "threadFunc_step s' = None" by (simp add: threadFunc_step_def s'(2))
  have final: "\<forall>fs s''. fire_all fs s' = Some s'' \<longrightarrow>
                  thr s'' = Exited \<and> executed s'' = executed s' \<and> world s'' = world s'"
    using exited_is_final[OF _ s'(2)] by blast
  have never: "\<forall>fs s''. fire_all fs (request_stop s) = Some s'' \<longrightarrow>
                  set (tasks s) \<inter> set (executed s'') = {}"
  proof (intro allI impI)
    fix fs s'' assume that: "fire_all fs (request_stop s) = Some s''"
    from stopped_queue_stays[OF that nr] obtain ys where "tasks s'' = tasks s @ ys"
      by (auto simp: request_stop_def)
    with queued_not_executed[OF fifo_inv_fire_all[OF inv that]]
    show "set (tasks s) \<inter> set (executed s'') = {}" by auto
  qed
  show ?thesis
    by (intro exI[of _ s'] conjI) (fact d s'(2) s'(3) s'(4) s'(5) s'(6) eff q stuck final never)+
qed

theorem shutdown_discards_queue_witness:
  "\<exists>s s'. fire_all [Spawn (\<lambda>w. (Value (), w + 1)), Spawn (\<lambda>w. (Value (), w + 10)), Step]
             (Worker_ctor (0::nat)) = Some s \<and>
          Worker_dtor s = Some s' \<and> thr s' = Exited \<and> \<not> running s' \<and>
          tasks s' = [1] \<and> executed s' = [0] \<and> world s' = 1 \<and>
          future_ready 0 s' = Some (Value ()) \<and> future_ready 1 s' = None \<and>
          threadFunc_step s' = None"
proof -
  define s where "s = the (fire_all [Spawn (\<lambda>w. (Value (), w + 1)), Spawn (\<lambda>w. (Value (), w + 10)), Step]
             (Worker_ctor (0::nat)))"
  have eq: "fire_all [Spawn (\<lambda>w. (Value (), w + 1)), Spawn (\<lambda>w. (Value (), w + 10)), Step]
             (Worker_ctor (0::nat)) = Some s"
    by (simp add: s_def Worker_ctor_def spawn_def threadFunc_step_def dequeue_def execute_def)
  have vals: "tasks s = [1]" "executed s = []" "held s = [0]" "thr s = Holding 0"
    "snd (fn (heap s ! 0) (world s)) = 1" "fst (fn (heap s ! 0) (world s)) = Value ()"
    by (simp_all add: s_def Worker_ctor_def spawn_def threadFunc_step_def dequeue_def execute_def
          held_def)
  from shutdown_discards_queue[OF eq]
  obtain s' where all: "Worker_dtor s = Some s' \<and> thr s' = Exited \<and> \<not> running s' \<and>
              tasks s' = tasks s \<and> executed s' = executed s @ held s \<and>
              (held s = [] \<longrightarrow> world s' = world s) \<and>
              (\<forall>k. thr s = Holding k \<longrightarrow>
                   world s' = snd (fn (heap s ! k) (world s)) \<and>
                   future_ready k s' = Some (fst (fn (heap s ! k) (world s)))) \<and>
              (\<forall>k \<in> set (tasks s). future_ready k s' = None) \<and>
              threadFunc_step s' = None \<and>
              (\<forall>fs s''. fire_all fs s' = Some s'' \<longrightarrow>
                  thr s'' = Exited \<and> executed s'' = executed s' \<and> world s'' = world s') \<and>
              (\<forall>fs s''. fire_all fs (request_stop s) = Some s'' \<longrightarrow>
                  set (tasks s) \<inter> set (executed s'') = {})"
    by (rule exE)
  from all have d: "Worker_dtor s = Some s'" by (elim conjE)
  from all have e: "thr s' = Exited" by (elim conjE)
  from all have nr: "\<not> running s'" by (elim conjE)
  from all have t: "tasks s' = tasks s" by (elim conjE)
  from all have x: "executed s' = executed s @ held s" by (elim conjE)
  from all have h: "\<forall>k. thr s = Holding k \<longrightarrow>
                   world s' = snd (fn (heap s ! k) (world s)) \<and>
                   future_ready k s' = Some (fst (fn (heap s ! k) (world s)))" by (elim conjE)
  from all have q: "\<forall>k \<in> set (tasks s). future_ready k s' = None" by (elim conjE)
  from all have stuck: "threadFunc_step s' = None" by (elim conjE)
  from h vals(4) have "world s' = snd (fn (heap s ! 0) (world s))"
    "future_ready 0 s' = Some (fst (fn (heap s ! 0) (world s)))" by simp_all
  then have w: "world s' = 1" and f0: "future_ready 0 s' = Some (Value ())"
    by (simp_all only: vals(5,6))
  from q have f1: "future_ready 1 s' = None" by (simp add: vals(1))
  have t': "tasks s' = [1]" using t vals(1) by simp
  have x': "executed s' = [0]" using x vals(2,3) by simp
  show ?thesis
    by (intro exI[of _ s] exI[of _ s'] conjI) (fact eq d e nr t' x' w f0 f1 stuck)+
qed

section \<open>Properties of the plugin callbacks\<close>

text \<open>
  C10. Frame of \<^verbatim>\<open>connect_port\<close> and \<^verbatim>\<open>instantiate\<close>: port 0 sets only \<open>gain\<close>, port 1 only
  \<open>input\<close>, port 2 only \<open>output\<close>; any other port index leaves the instance as it is; the
  handle \<open>db_to_coef\<close> is never touched. Whatever its four arguments, the instance that
  \<^verbatim>\<open>instantiate\<close> returns has null \<open>gain\<close>, \<open>input\<close>, \<open>output\<close> and \<open>db_to_coef\<close>.
\<close>

theorem connect_port_frame:
  "connect_port amp 0 d = amp\<lparr>gain := d\<rparr> \<and>
   connect_port amp 1 d = amp\<lparr>input := d\<rparr> \<and>
   connect_port amp 2 d = amp\<lparr>output' := d\<rparr> \<and>
   (port \<notin> {0, 1, 2} \<longrightarrow> connect_port amp port d = amp) \<and>
   db_to_coef (connect_port amp port d) = db_to_coef amp \<and>
   (\<forall>a. instantiate descriptor rate bundle_path features ok = Some a \<longrightarrow>
        gain a = 0 \<and> input a = 0 \<and> output' a = 0 \<and> db_to_coef a = None)"
  by (auto simp: connect_port_def AMP_GAIN_def AMP_INPUT_def AMP_OUTPUT_def instantiate_def)

theorem connect_port_frame_witness:
  "connect_port \<lparr>gain = 4, input = 5, output' = 6, db_to_coef = Some (9::nat)\<rparr> 7 99
     = \<lparr>gain = 4, input = 5, output' = 6, db_to_coef = Some 9\<rparr> \<and>
   (\<exists>a. instantiate () 48000 ''path'' () True = Some (a :: nat Amp) \<and>
        gain a = 0 \<and> input a = 0 \<and> output' a = 0 \<and> db_to_coef a = None)"
  using connect_port_frame[of "\<lparr>gain = 4, input = 5, output' = 6, db_to_coef = Some (9::nat)\<rparr>" 99 7
          "()" 48000 "''path''" "()" True]
  by (simp add: instantiate_def)

text \<open>
  C5. Type-mismatch sentinel: when the call of the resolved function returns a value whose
  type tag is not that of \<^verbatim>\<open>Float32\<close>, the closure of the audio callback and the closure of
  the test call in \<^verbatim>\<open>activate\<close> both return the coefficient \<open>-1\<close>, and the value is not
  unboxed.
\<close>

theorem wrong_type_gives_sentinel:
  assumes "jl_typeof api v \<noteq> jl_float32_type api"
  shows "(jl_box_float32 api g rt = (b, rt1) \<and> jl_call1 api (db_to_coef amp) b rt1 = (Some v, rt2)
            \<longrightarrow> run_task api amp g rt = (Value (Coef (- 1)), rt2)) \<and>
         (jl_box_float32 api (- 3) (printf api ''Testing julia function.\<newline>'' rt) = (b, rt1) \<and>
          jl_call1 api (db_to_coef amp) b rt1 = (Some v, rt2)
            \<longrightarrow> fst (activate_test_task api amp rt) = Value (Coef (- 1)))"
  using assms
  by (simp add: run_task_def activate_test_task_def Let_def)

theorem wrong_type_gives_sentinel_witness:
  "run_task (stub_api (Some (''Int64'', 42))) stub_amp (- 3) stub_rt0
     = (Value (Coef (- 1)), stub_rt0) \<and>
   fst (activate_test_task (stub_api (Some (''Int64'', 42))) stub_amp stub_rt0)
     = Value (Coef (- 1))"
  using wrong_type_gives_sentinel[of "stub_api (Some (''Int64'', 42))" "(''Int64'', 42)"
          "- 3" stub_rt0 "(''Float32'', - 3)" stub_rt0 stub_amp stub_rt0]
        wrong_type_gives_sentinel[of "stub_api (Some (''Int64'', 42))" "(''Int64'', 42)"
          "- 3" stub_rt0 "(''Float32'', - 3)"
          "stub_rt0\<lparr>printed := [''Testing julia function.\<newline>'']\<rparr>" stub_amp
          "stub_rt0\<lparr>printed := [''Testing julia function.\<newline>'']\<rparr>"]
  by (simp add: stub_api_def stub_amp_def stub_rt0_def)

lemma amp_loop_from:
  assumes "\<forall>i. pos \<le> i \<and> i < n \<longrightarrow> m (inp + i) \<noteq> None \<and> m (out + i) \<noteq> None"
    and "\<forall>i j. pos \<le> i \<and> i < j \<and> j < n \<longrightarrow> out + i \<noteq> inp + j"
  shows "\<exists>m'. amp_loop rnd pos n inp out coef m = Some m' \<and>
           (\<forall>i. pos \<le> i \<and> i < n \<longrightarrow> m' (out + i) = Some (rnd (the (m (inp + i)) * coef))) \<and>
           (\<forall>a. (\<forall>i. pos \<le> i \<and> i < n \<longrightarrow> a \<noteq> out + i) \<longrightarrow> m' a = m a)"
  using assms
proof (induction rnd pos n inp out coef m rule: amp_loop.induct)
  case (1 rnd pos n inp out coef m)
  show ?case
  proof (cases "pos < n")
    case False
    then have "amp_loop rnd pos n inp out coef m = Some m"
      by (subst amp_loop.simps) simp
    with False show ?thesis by auto
  next
    case True
    with "1.prems"(1) obtain x where x: "m (inp + pos) = Some x" and o: "m (out + pos) \<noteq> None"
      by (metis le_refl not_None_eq)
    let ?m1 = "m(out + pos \<mapsto> rnd (x * coef))"
    have p1: "\<forall>i. pos + 1 \<le> i \<and> i < n \<longrightarrow> ?m1 (inp + i) \<noteq> None \<and> ?m1 (out + i) \<noteq> None"
      using "1.prems"(1) by auto
    have p2: "\<forall>i j. pos + 1 \<le> i \<and> i < j \<and> j < n \<longrightarrow> out + i \<noteq> inp + j"
      using "1.prems"(2) by auto
    from "1.IH"[OF True x o p1 p2]
    obtain m' where m': "amp_loop rnd (pos + 1) n inp out coef ?m1 = Some m'"
      "\<forall>i. pos + 1 \<le> i \<and> i < n \<longrightarrow> m' (out + i) = Some (rnd (the (?m1 (inp + i)) * coef))"
      "\<forall>a. (\<forall>i. pos + 1 \<le> i \<and> i < n \<longrightarrow> a \<noteq> out + i) \<longrightarrow> m' a = ?m1 a"
      by blast
    have run: "amp_loop rnd pos n inp out coef m = Some m'"
      using True x o m'(1) by (subst amp_loop.simps) simp
    have later: "m' (out + i) = Some (rnd (the (m (inp + i)) * coef))" if "pos + 1 \<le> i" "i < n" for i
    proof -
      have "out + pos \<noteq> inp + i" using "1.prems"(2) that by auto
      then have "?m1 (inp + i) = m (inp + i)" by simp
      with m'(2) that show ?thesis by simp
    qed
    have here: "m' (out + pos) = Some (rnd (the (m (inp + pos)) * coef))"
    proof -
      have "m' (out + pos) = ?m1 (out + pos)" using m'(3) by auto
      then show ?thesis by (simp add: x)
    qed
    have vals: "m' (out + i) = Some (rnd (the (m (inp + i)) * coef))" if "pos \<le> i" "i < n" for i
      using that here later by (cases "i = pos") auto
    have frame: "m' a = m a" if "\<forall>i. pos \<le> i \<and> i < n \<longrightarrow> a \<noteq> out + i" for a
    proof -
      from that True have "a \<noteq> out + pos" by auto
      moreover have "m' a = ?m1 a" using m'(3) that by auto
      ultimately show ?thesis by simp
    qed
    from run vals frame show ?thesis by blast
  qed
qed

section \<open>Properties of the singleton\<close>

lemma pending_world_idle:
  assumes "tasks s = []" "thr s = AtLoop"
  shows "pending_world s = world s"
  using assms by (simp add: pending_world_def held_def world_after_def)

lemma Julia_ctor_result:
  "\<exists>j. Julia_ctor api rt = Some j \<and> fifo_inv j \<and> running j \<and> tasks j = [] \<and> thr j = AtLoop \<and>
       world j = snd (init_task api rt) \<and> executed j = [0] \<and> submitted j = [0] \<and>
       map fn (heap j) = [init_task api]"
proof -
  define s0 :: "('a, task_result) Worker" where "s0 = Worker_ctor rt"
  have r: "running s0" by (simp add: s0_def Worker_ctor_def)
  have inv: "fifo_inv s0" unfolding s0_def by (rule fifo_inv_ctor)
  have pw: "pending_world s0 = rt"
    by (simp add: s0_def pending_world_def Worker_ctor_def held_def world_after_def)
  have f0: "submitted s0 = []" "heap s0 = []"
    by (simp_all add: s0_def Worker_ctor_def)
  from Worker_run_result[OF inv r, of "init_task api"]
  obtain s' where "Worker_run (init_task api) s0 = Some (fst (init_task api rt), s')"
    "world s' = snd (init_task api rt)" "tasks s' = []" "thr s' = AtLoop" "running s'"
    "fifo_inv s'" "executed s' = [0]" "submitted s' = [0]" "map fn (heap s') = [init_task api]"
    unfolding pw f0 by auto
  then show ?thesis
    by (simp add: Julia_ctor_def s0_def[symmetric])
qed

lemma Julia_run_result:
  assumes "usable st"
  shows "\<exists>j. Julia_run api f st = Some (fst (f (runtime_at api st)), Constructed j) \<and>
             world j = snd (f (runtime_at api st)) \<and> fifo_inv j \<and> running j \<and>
             tasks j = [] \<and> thr j = AtLoop"
proof (cases st)
  case (NotConstructed rt)
  from Julia_ctor_result[of api rt]
  obtain j0 where j0: "Julia_ctor api rt = Some j0" "fifo_inv j0" "running j0" "tasks j0 = []"
    "thr j0 = AtLoop" "world j0 = snd (init_task api rt)"
    by blast
  have pw: "pending_world j0 = snd (init_task api rt)"
    using pending_world_idle[OF j0(4,5)] j0(6) by simp
  from Worker_run_result[OF j0(2,3), of f]
  obtain s' where "Worker_run f j0 = Some (fst (f (pending_world j0)), s')"
    "world s' = snd (f (pending_world j0))" "tasks s' = []" "thr s' = AtLoop" "running s'"
    "fifo_inv s'"
    by blast
  then show ?thesis
    by (simp add: Julia_run_def Julia_instance_def NotConstructed j0(1) pw runtime_at_def)
next
  case (Constructed j0)
  with assms have j0: "fifo_inv j0" "running j0" by (simp_all add: usable_def)
  from Worker_run_result[OF j0, of f]
  obtain s' where "Worker_run f j0 = Some (fst (f (pending_world j0)), s')"
    "world s' = snd (f (pending_world j0))" "tasks s' = []" "thr s' = AtLoop" "running s'"
    "fifo_inv s'"
    by blast
  then show ?thesis
    by (simp add: Julia_run_def Julia_instance_def Constructed runtime_at_def)
qed

text \<open>
  C6. Single initialisation: the first call of \<^verbatim>\<open>Julia::instance()\<close> returns, and when it
  does the initialisation closure (\<^verbatim>\<open>jl_init\<close>, then the start script) has run on the worker
  thread, exactly once, and is the only closure that has run; every later call, however many
  there are, returns the very same instance and runs nothing.
\<close>

theorem runtime_initialised_once:
  "\<exists>j. Julia_instance api (NotConstructed rt) = Some j \<and>
       world j = snd (jl_eval_string api start_script (jl_init api rt)) \<and>
       executed j = [0] \<and> map fn (heap j) = [init_task api] \<and>
       tasks j = [] \<and> thr j = AtLoop \<and> running j \<and>
       (\<forall>n. accesses api (Suc n) (NotConstructed rt) = Some (Constructed j))"
proof -
  from Julia_ctor_result[of api rt]
  obtain j where all: "Julia_ctor api rt = Some j \<and> fifo_inv j \<and> running j \<and> tasks j = [] \<and>
       thr j = AtLoop \<and> world j = snd (init_task api rt) \<and> executed j = [0] \<and>
       submitted j = [0] \<and> map fn (heap j) = [init_task api]"
    by (rule exE)
  then have j: "Julia_ctor api rt = Some j" "running j" "tasks j = []"
    "thr j = AtLoop" "world j = snd (init_task api rt)" "executed j = [0]"
    "map fn (heap j) = [init_task api]"
    by simp_all
  have inst: "Julia_instance api (NotConstructed rt) = Some j"
    by (simp add: Julia_instance_def j(1))
  have w: "world j = snd (jl_eval_string api start_script (jl_init api rt))"
    by (simp add: j(5) init_task_def)
  have again: "accesses api n (Constructed j) = Some (Constructed j)" for n
    by (induction n) (simp_all add: Julia_instance_def)
  have acc: "\<forall>n. accesses api (Suc n) (NotConstructed rt) = Some (Constructed j)"
    by (simp add: inst again)
  show ?thesis
    by (intro exI[of _ j] conjI) (fact inst w j(6) j(7) j(3) j(4) j(2) acc)+
qed

theorem runtime_initialised_once_witness:
  "\<exists>j. accesses (stub_api None) 3 (NotConstructed stub_rt0) = Some (Constructed j) \<and>
       inits (world j) = 1 \<and> evals (world j) = [start_script] \<and> executed j = [0]"
proof -
  from runtime_initialised_once[of "stub_api None" stub_rt0]
  obtain j where all: "Julia_instance (stub_api None) (NotConstructed stub_rt0) = Some j \<and>
       world j = snd (jl_eval_string (stub_api None) start_script (jl_init (stub_api None) stub_rt0)) \<and>
       executed j = [0] \<and> map fn (heap j) = [init_task (stub_api None)] \<and>
       tasks j = [] \<and> thr j = AtLoop \<and> running j \<and>
       (\<forall>n. accesses (stub_api None) (Suc n) (NotConstructed stub_rt0) = Some (Constructed j))"
    by (rule exE)
  from all have j1: "world j = snd (jl_eval_string (stub_api None) start_script (jl_init (stub_api None) stub_rt0))"
    by (elim conjE)
  from all have j2: "executed j = [0]"
    by (elim conjE)
  from all have j3: "\<forall>n. accesses (stub_api None) (Suc n) (NotConstructed stub_rt0) = Some (Constructed j)"
    by (elim conjE)
  from j3 have a: "accesses (stub_api None) (Suc 2) (NotConstructed stub_rt0) = Some (Constructed j)"
    by (rule spec)
  have "Suc 2 = 3" by simp
  with a have a3: "accesses (stub_api None) 3 (NotConstructed stub_rt0) = Some (Constructed j)"
    by (simp only:)
  have w: "inits (world j) = 1" "evals (world j) = [start_script]"
    by (simp_all add: j1 stub_api_def stub_rt0_def)
  show ?thesis
    by (intro exI[of _ j] conjI) (fact a3 w j2)+
qed

section \<open>The audio callback\<close>

text \<open>
  C9. Sample scaling: when the gain port can be read, the runtime call produces the
  coefficient \<open>coef\<close>, the first \<open>n_samples\<close> cells of both buffers are mapped, and no
  output cell is an input cell of a later position (buffers apart, or the same buffer for
  both ports), the audio callback returns and
  \<open>output[pos] = input[pos] * coef\<close> (rounded) holds for every \<open>pos < n_samples\<close>.
  With coefficient 0.708 and exact products, input 1, 2, 3 gives 0.708, 1.416, 2.124.
\<close>

theorem run_scales_every_sample:
  assumes "mem p (gain amp) = Some g"
    and "Julia_run api (run_task api amp g) (julia p) = Some (Value (Coef coef), st)"
    and "\<forall>pos. pos < unat n_samples \<longrightarrow>
           mem p (input amp + pos) \<noteq> None \<and> mem p (output' amp + pos) \<noteq> None"
    and "\<forall>i j. i < j \<and> j < unat n_samples \<longrightarrow> output' amp + i \<noteq> input amp + j"
  shows "\<exists>p'. run api rnd amp n_samples p = Returns p' \<and> julia p' = st \<and>
           (\<forall>pos. pos < unat n_samples \<longrightarrow>
              mem p' (output' amp + pos) = Some (rnd (the (mem p (input amp + pos)) * coef)))"
proof -
  have a: "\<forall>i. 0 \<le> i \<and> i < unat n_samples \<longrightarrow>
             mem p (input amp + i) \<noteq> None \<and> mem p (output' amp + i) \<noteq> None"
    using assms(3) by simp
  have b: "\<forall>i j. 0 \<le> i \<and> i < j \<and> j < unat n_samples \<longrightarrow> output' amp + i \<noteq> input amp + j"
    using assms(4) by simp
  from amp_loop_from[OF a b, of rnd coef]
  obtain m' where m': "amp_loop rnd 0 (unat n_samples) (input amp) (output' amp) coef (mem p) = Some m'"
    "\<forall>i. 0 \<le> i \<and> i < unat n_samples \<longrightarrow>
        m' (output' amp + i) = Some (rnd (the (mem p (input amp + i)) * coef))"
    by blast
  have "run api rnd amp n_samples p = Returns (p\<lparr>julia := st, mem := m'\<rparr>)"
    by (simp add: run_def assms(1,2) m'(1))
  with m'(2) show ?thesis by simp
qed

theorem run_scales_every_sample_witness:
  "\<exists>p'. run (stub_api (Some (''Float32'', 0.708))) (\<lambda>x. x) stub_amp 3
            \<lparr>julia = NotConstructed stub_rt0, mem = stub_mem\<rparr> = Returns p' \<and>
        mem p' 20 = Some 0.708 \<and> mem p' 21 = Some 1.416 \<and> mem p' 22 = Some 2.124"
proof -
  define api where "api = stub_api (Some (''Float32'', 0.708))"
  define p :: "(stub_rt, string \<times> real) process"
    where "p = \<lparr>julia = NotConstructed stub_rt0, mem = stub_mem\<rparr>"
  have u: "usable (julia p)" by (simp add: p_def usable_def)
  have g: "mem p (gain stub_amp) = Some (- 3)"
    by (simp add: p_def stub_amp_def stub_mem_def)
  have c: "fst (run_task api stub_amp (- 3) (runtime_at api (julia p))) = Value (Coef 0.708)"
    by (simp add: run_task_def api_def stub_api_def stub_amp_def)
  from Julia_run_result[OF u, of api "run_task api stub_amp (- 3)"]
  obtain j where "Julia_run api (run_task api stub_amp (- 3)) (julia p)
      = Some (fst (run_task api stub_amp (- 3) (runtime_at api (julia p))), Constructed j)"
    by blast
  then have jr: "Julia_run api (run_task api stub_amp (- 3)) (julia p)
      = Some (Value (Coef 0.708), Constructed j)"
    by (simp only: c)
  have n: "unat (3 :: 32 word) = 3" by simp
  have mapped: "\<forall>pos. pos < unat (3 :: 32 word) \<longrightarrow>
           mem p (input stub_amp + pos) \<noteq> None \<and> mem p (output' stub_amp + pos) \<noteq> None"
    unfolding n by (auto simp: p_def stub_amp_def stub_mem_def less_Suc_eq numeral_3_eq_3)
  have apart: "\<forall>i j. i < j \<and> j < unat (3 :: 32 word) \<longrightarrow> output' stub_amp + i \<noteq> input stub_amp + j"
    unfolding n by (auto simp: stub_amp_def)
  from run_scales_every_sample[OF g jr mapped apart, of "\<lambda>x. x"]
  obtain p' where p': "run api (\<lambda>x. x) stub_amp 3 p = Returns p'"
    "\<forall>pos. pos < unat (3 :: 32 word) \<longrightarrow>
        mem p' (output' stub_amp + pos) = Some (the (mem p (input stub_amp + pos)) * 0.708)"
    by blast
  have v0: "mem p' 20 = Some 0.708"
    using p'(2)[unfolded n, rule_format, of 0] by (simp add: p_def stub_amp_def stub_mem_def)
  have v1: "mem p' 21 = Some 1.416"
    using p'(2)[unfolded n, rule_format, of 1] by (simp add: p_def stub_amp_def stub_mem_def)
  have v2: "mem p' 22 = Some 2.124"
    using p'(2)[unfolded n, rule_format, of 2] by (simp add: p_def stub_amp_def stub_mem_def)
  note vals = v0 v1 v2
  from p'(1) vals show ?thesis
    unfolding api_def p_def by blast
qed

section \<open>Teardown\<close>




section \<open>Exceptions of the runtime\<close>

text \<open>
  C4. Error checks after runtime operations. The code does not do what the claim says: with
  a runtime in which the evaluated script raises, \<^verbatim>\<open>Julia::run(const char*)\<close> returns normally
  with the exception still pending, never having asked for it; with a resolved function that
  raises (the call returns a null pointer), the closure of the audio callback applies
  \<^verbatim>\<open>jl_typeis\<close> to the null pointer without asking for the exception, and the callback
  crashes. The closure of the test call in \<^verbatim>\<open>activate\<close> does ask, on the same runtime, and
  prints the exception's type.
\<close>

theorem runtime_exception_unchecked:
  "(\<exists>j. Julia_run_script (stub_api None) ''error()'' (NotConstructed stub_rt0)
            = Some (Value Void, Constructed j) \<and>
         jl_exception_occurred (stub_api None) (world j) \<noteq> None) \<and>
   run (stub_api None) (\<lambda>x. x) stub_amp 3 \<lparr>julia = NotConstructed stub_rt0, mem = stub_mem\<rparr>
     = Crashes \<and>
   run_task (stub_api None) stub_amp (- 3) stub_rt0
     = (Value NullDeref, stub_rt0\<lparr>pending := True\<rparr>) \<and>
   printed (snd (activate_test_task (stub_api None) stub_amp stub_rt0))
     = [''Testing julia function.\<newline>'', ''E4: ErrorException \<newline>'']"
proof -
  define api where "api = stub_api None"
  define st :: "(stub_rt, task_result) Julia_static" where "st = NotConstructed stub_rt0"
  have u: "usable st" by (simp add: st_def usable_def)
  let ?script = "\<lambda>rt. (Value Void, snd (jl_eval_string api ''error()'' rt))"
  from Julia_run_result[OF u, of api ?script]
  obtain j where j: "Julia_run api ?script st = Some (fst (?script (runtime_at api st)), Constructed j)"
    "world j = snd (?script (runtime_at api st))"
    by blast
  have a1: "Julia_run_script api ''error()'' st = Some (Value Void, Constructed j)"
    using j(1) by (simp add: Julia_run_script_def)
  have a2: "jl_exception_occurred api (world j) \<noteq> None"
    unfolding j(2) by (simp add: api_def stub_api_def)
  have a: "\<exists>j. Julia_run_script api ''error()'' st = Some (Value Void, Constructed j) \<and>
         jl_exception_occurred api (world j) \<noteq> None"
    using a1 a2 by blast
  have c: "fst (run_task api stub_amp (- 3) (runtime_at api st)) = Value NullDeref"
    by (simp add: run_task_def api_def stub_api_def stub_amp_def)
  from Julia_run_result[OF u, of api "run_task api stub_amp (- 3)"]
  obtain j' where "Julia_run api (run_task api stub_amp (- 3)) st
      = Some (fst (run_task api stub_amp (- 3) (runtime_at api st)), Constructed j')"
    by blast
  then have jr: "Julia_run api (run_task api stub_amp (- 3)) st = Some (Value NullDeref, Constructed j')"
    by (simp only: c)
  have g: "stub_mem (gain stub_amp) = Some (- 3)"
    by (simp add: stub_amp_def stub_mem_def)
  have b: "run api (\<lambda>x. x) stub_amp 3 \<lparr>julia = st, mem = stub_mem\<rparr> = Crashes"
    by (simp add: run_def g jr)
  have d: "run_task api stub_amp (- 3) stub_rt0 = (Value NullDeref, stub_rt0\<lparr>pending := True\<rparr>)"
    by (simp add: run_task_def api_def stub_api_def stub_amp_def)
  have e: "printed (snd (activate_test_task api stub_amp stub_rt0))
     = [''Testing julia function.\<newline>'', ''E4: ErrorException \<newline>'']"
    by (simp add: activate_test_task_def api_def stub_api_def stub_amp_def stub_rt0_def)
  from a b d e show ?thesis
    unfolding api_def st_def by (intro conjI)
qed

end
